theory Spec2Isabelle
  imports Main "HOL-Library.Word" "HOL-Library.Monad_Syntax" "HOL-Library.Multiset"
begin

section \<open>Data model of find\_motion.c\<close>

text \<open>
  Pixels are \<open>uint8\<close>, motion-vector components are \<open>int8\<close> (read back with \<open>sint\<close>).
  The C type \<open>int\<close> is modelled by \<open>int\<close>. Signed overflow is undefined in C; the
  integers computed here are loop counters between small constants, indices into the
  buffers, and sums of at most 256 absolute differences of bytes (at most 65280), which
  stay inside the range of \<open>int\<close> for frames that fit in memory.
\<close>

type_synonym uint8 = "8 word"
type_synonym int8 = "8 word"

definition BSIZE :: int where
  "BSIZE = 16"

definition MSTEP :: int where
  "MSTEP = 8"

definition INT_MAX :: int where
  "INT_MAX = 2147483647"

text \<open>The struct \<open>MVector\<close>; its fields \<open>x\<close> and \<open>y\<close> are named \<open>mv_x\<close> and \<open>mv_y\<close>.\<close>

record MVector =
  mv_x :: int8
  mv_y :: int8

text \<open>
  A buffer is a list; an access outside of it is undefined behaviour in C and is the
  value \<open>None\<close> here, which every caller propagates.
\<close>

definition rd :: "'a list \<Rightarrow> int \<Rightarrow> 'a option" where
  "rd a i = (if 0 \<le> i \<and> i < int (length a) then Some (a ! nat i) else None)"

definition wr :: "'a list \<Rightarrow> int \<Rightarrow> 'a \<Rightarrow> 'a list option" where
  "wr a i v = (if 0 \<le> i \<and> i < int (length a) then Some (a[nat i := v]) else None)"

text \<open>
  A counted loop \<open>for (k = a; k < b; k++) body\<close> whose body does not assign \<open>k\<close>:
  the body runs once for each index of the list, in order, on the state threaded through,
  and the loop stops at the first failing access.
\<close>

fun for_loop :: "int list \<Rightarrow> (int \<Rightarrow> 's \<Rightarrow> 's option) \<Rightarrow> 's \<Rightarrow> 's option" where
  "for_loop [] body s = Some s"
| "for_loop (k # ks) body s = Option.bind (body k s) (for_loop ks body)"

text \<open>Integer division of C truncates towards zero.\<close>

definition c_div :: "int \<Rightarrow> int \<Rightarrow> int" where
  "c_div a b = sgn a * sgn b * (\<bar>a\<bar> div \<bar>b\<bar>)"

section \<open>The median filter\<close>

text \<open>
  \<open>matrix_to_array\<close>: \<open>ptr\<close> is the offset of the pointer into the image \<open>img\<close>; the
  nine samples around it are stored at \<open>pix_array[0..8]\<close>. (The parameters \<open>image\<close> and
  \<open>size\<close> of the source are written \<open>img\<close> and \<open>sz\<close>.)
\<close>

definition matrix_to_array :: "uint8 list \<Rightarrow> uint8 list \<Rightarrow> int \<Rightarrow> int \<Rightarrow> uint8 list option" where
  "matrix_to_array pix_array img ptr width =
     map_option fst
       (for_loop [-1..1] (\<lambda>y. for_loop [-1..1] (\<lambda>x (pix_array, idx). do {
            v \<leftarrow> rd img (ptr + x + width * y);
            pix_array' \<leftarrow> wr pix_array idx v;
            Some (pix_array', idx + 1) }))
          (pix_array, 0))"

definition insertion_sort :: "uint8 list \<Rightarrow> int \<Rightarrow> uint8 list option" where
  "insertion_sort pix_array sz =
     for_loop [1..sz - 1] (\<lambda>idx. for_loop (rev [1..idx]) (\<lambda>jdx pix_array. do {
          a \<leftarrow> rd pix_array jdx;
          b \<leftarrow> rd pix_array (jdx - 1);
          if uint a < uint b
          then do { pix_array' \<leftarrow> wr pix_array jdx b; wr pix_array' (jdx - 1) a }
          else Some pix_array }))
       pix_array"

text \<open>
  \<open>median3x3\<close>: the state of the loops is the image and the local \<open>pix_array[9]\<close>, whose
  indeterminate initial content is written before it is read.
\<close>

definition median3x3 :: "uint8 list \<Rightarrow> int \<Rightarrow> int \<Rightarrow> uint8 list option" where
  "median3x3 img width height =
     map_option fst
       (for_loop [1..height - 2] (\<lambda>row. for_loop [1..width - 2] (\<lambda>col (img, pix_array). do {
            let ptr = row * width + col;
            pix_array1 \<leftarrow> matrix_to_array pix_array img ptr width;
            pix_array2 \<leftarrow> insertion_sort pix_array1 9;
            m \<leftarrow> rd pix_array2 4;
            img' \<leftarrow> wr img ptr m;
            Some (img', pix_array2) }))
          (img, replicate 9 0))"

section \<open>Block matching\<close>

text \<open>
  \<open>compute_sad\<close>: the two bytes are promoted to \<open>int\<close> before the subtraction. (The
  parameter \<open>curr\<close> of the source is written \<open>cur\<close>.)
\<close>

definition compute_sad :: "uint8 list \<Rightarrow> uint8 list \<Rightarrow> int \<Rightarrow> int \<Rightarrow> int \<Rightarrow> int \<Rightarrow> int \<Rightarrow> int option" where
  "compute_sad prev cur width px py cx cy =
     for_loop [0..BSIZE - 1] (\<lambda>y. for_loop [0..BSIZE - 1] (\<lambda>x sad. do {
          p \<leftarrow> rd prev ((py + y) * width + (px + x));
          c \<leftarrow> rd cur ((cy + y) * width + (cx + x));
          Some (sad + \<bar>uint p - uint c\<bar>) }))
       0"

text \<open>
  \<open>match\<close> returns \<open>min_sad\<close> together with the final contents of \<open>*x\<close> and \<open>*y\<close>; the
  arguments \<open>x\<close> and \<open>y\<close> are their contents on entry.
\<close>

definition match :: "int \<Rightarrow> int \<Rightarrow> int \<Rightarrow> int \<Rightarrow> uint8 list \<Rightarrow> uint8 list \<Rightarrow> int \<Rightarrow> (int \<times> int \<times> int) option" where
  "match x y posx posy prev cur width =
     for_loop [- BSIZE..BSIZE - 1] (\<lambda>mvy. for_loop [- BSIZE..BSIZE - 1] (\<lambda>mvx (min_sad, x, y). do {
          sad \<leftarrow> compute_sad prev cur width (posx + mvx) (posy + mvy) posx posy;
          Some (if sad \<le> min_sad then (sad, mvx, mvy) else (min_sad, x, y)) }))
       (INT_MAX, x, y)"

section \<open>Motion estimation\<close>

text \<open>
  \<open>full_search\<close>: \<open>x0\<close> and \<open>y0\<close> are the indeterminate initial contents of the locals
  \<open>x\<close> and \<open>y\<close>. Storing an \<open>int\<close> into an \<open>int8\<close> field keeps its low 8 bits.
\<close>

definition full_search :: "MVector list \<Rightarrow> uint8 list \<Rightarrow> uint8 list \<Rightarrow> int \<Rightarrow> int \<Rightarrow> int \<Rightarrow> int \<Rightarrow> MVector list option" where
  "full_search mv prev_image curr_image width height x0 y0 =
     (let nx = c_div width MSTEP; ny = c_div height MSTEP in
      map_option fst
        (for_loop [2..ny - 5] (\<lambda>idy. for_loop [2..nx - 5] (\<lambda>idx (mv, x, y). do {
             (min_sad, x', y') \<leftarrow> match x y (idx * MSTEP) (idy * MSTEP) prev_image curr_image width;
             e1 \<leftarrow> rd mv (idy * nx + idx);
             mv1 \<leftarrow> wr mv (idy * nx + idx) (e1\<lparr>mv_x := word_of_int x'\<rparr>);
             e2 \<leftarrow> rd mv1 (idy * nx + idx);
             mv2 \<leftarrow> wr mv1 (idy * nx + idx) (e2\<lparr>mv_y := word_of_int y'\<rparr>);
             Some (mv2, x', y') }))
           (mv, x0, y0)))"

text \<open>
  \<open>main\<close>, lines 99 to 105 and 122: the field has \<open>(width / MSTEP) * (height / MSTEP)\<close>
  entries, \<open>memset\<close> clears them, and \<open>full_search\<close> fills the field. (The allocation is
  taken to succeed.)
\<close>

definition zero_vector :: MVector where
  "zero_vector = \<lparr>mv_x = 0, mv_y = 0\<rparr>"

definition zero_field :: "int \<Rightarrow> int \<Rightarrow> MVector list" where
  "zero_field width height = replicate (nat (c_div width MSTEP * c_div height MSTEP)) zero_vector"

definition estimateMotion :: "uint8 list \<Rightarrow> uint8 list \<Rightarrow> int \<Rightarrow> int \<Rightarrow> int \<Rightarrow> int \<Rightarrow> MVector list option" where
  "estimateMotion prev_image curr_image width height x0 y0 =
     full_search (zero_field width height) prev_image curr_image width height x0 y0"

text \<open>
  \<open>main\<close>, lines 115 to 122: both frames are filtered in place, then the motion field is
  estimated from the filtered frames.
\<close>

definition motion_pipeline :: "uint8 list \<Rightarrow> uint8 list \<Rightarrow> int \<Rightarrow> int \<Rightarrow> int \<Rightarrow> int \<Rightarrow> MVector list option" where
  "motion_pipeline frame_1 frame_2 width height x0 y0 = do {
     pix_1 \<leftarrow> median3x3 frame_1 width height;
     pix_2 \<leftarrow> median3x3 frame_2 width height;
     full_search (zero_field width height) pix_1 pix_2 width height x0 y0 }"

section \<open>Statistics\<close>

text \<open>
  \<open>compute_statistics\<close>, line 317: the integer \<open>x * x + y * y\<close> of an entry, computed in
  \<open>int\<close> from the two \<open>int8\<close> components, before it is converted to \<open>float\<close>. The
  floating-point part of the function (\<open>quick_sqrt\<close>, the comparisons with \<open>min\<close> and
  \<open>max\<close>, the running total and the mean) is not modelled.
\<close>

definition sq_length :: "MVector \<Rightarrow> int" where
  "sq_length v = sint (mv_x v) * sint (mv_x v) + sint (mv_y v) * sint (mv_y v)"

section \<open>Notions used to state the properties\<close>

text \<open>An index that lies inside a buffer.\<close>

definition in_buf :: "'a list \<Rightarrow> int \<Rightarrow> bool" where
  "in_buf a i \<longleftrightarrow> 0 \<le> i \<and> i < int (length a)"

text \<open>All 2 * 256 reads of one call of \<open>compute_sad\<close> are inside the two buffers.\<close>

definition sad_reads_ok :: "uint8 list \<Rightarrow> uint8 list \<Rightarrow> int \<Rightarrow> int \<Rightarrow> int \<Rightarrow> int \<Rightarrow> int \<Rightarrow> bool" where
  "sad_reads_ok prev cur width px py cx cy \<longleftrightarrow>
     (\<forall>y\<in>{0..15}. \<forall>x\<in>{0..15}.
        in_buf prev ((py + y) * width + (px + x)) \<and> in_buf cur ((cy + y) * width + (cx + x)))"

text \<open>
  The sum of absolute differences as the specification words it: over a 16 x 16 square,
  the absolute difference between the \<open>prev\<close> pixels anchored at \<open>(px, py)\<close> and the
  \<open>cur\<close> pixels anchored at \<open>(cx, cy)\<close>, both buffers row-major of the given width.
\<close>

definition sad :: "uint8 list \<Rightarrow> uint8 list \<Rightarrow> int \<Rightarrow> int \<Rightarrow> int \<Rightarrow> int \<Rightarrow> int \<Rightarrow> int" where
  "sad prev cur width px py cx cy =
     (\<Sum>y\<leftarrow>[0..15]. \<Sum>x\<leftarrow>[0..15].
        \<bar>uint (prev ! nat ((py + y) * width + (px + x))) - uint (cur ! nat ((cy + y) * width + (cx + x)))\<bar>)"

text \<open>A valid input of \<open>match\<close>: the reads of all 1024 candidates are inside the buffers.\<close>

definition match_reads_ok :: "int \<Rightarrow> int \<Rightarrow> uint8 list \<Rightarrow> uint8 list \<Rightarrow> int \<Rightarrow> bool" where
  "match_reads_ok posx posy prev cur width \<longleftrightarrow>
     (\<forall>mvy\<in>{-16..15}. \<forall>mvx\<in>{-16..15}.
        sad_reads_ok prev cur width (posx + mvx) (posy + mvy) posx posy)"

text \<open>The cost of the displacement \<open>(mvx, mvy)\<close> for the block anchored at \<open>(posx, posy)\<close>.\<close>

definition cost_at :: "uint8 list \<Rightarrow> uint8 list \<Rightarrow> int \<Rightarrow> int \<Rightarrow> int \<Rightarrow> int \<Rightarrow> int \<Rightarrow> int" where
  "cost_at prev cur width posx posy mvx mvy = sad prev cur width (posx + mvx) (posy + mvy) posx posy"

text \<open>
  The search as the specification words it: the candidates \<open>(mvy, mvx)\<close> in raster order
  (\<open>mvy\<close> ascending outside, \<open>mvx\<close> ascending inside), and a running best that a candidate
  replaces when its cost is less than or equal to the best so far.
\<close>

definition candidates :: "(int \<times> int) list" where
  "candidates = List.product [-16..15] [-16..15]"

definition replace_le :: "(int \<Rightarrow> int \<Rightarrow> int) \<Rightarrow> int \<times> int \<Rightarrow> int \<times> int \<times> int \<Rightarrow> int \<times> int \<times> int" where
  "replace_le cost = (\<lambda>(mvy, mvx) (min_sad, x, y).
     if cost mvx mvy \<le> min_sad then (cost mvx mvy, mvx, mvy) else (min_sad, x, y))"

definition search_last_min :: "(int \<Rightarrow> int \<Rightarrow> int) \<Rightarrow> int \<Rightarrow> int \<Rightarrow> int \<times> int \<times> int" where
  "search_last_min cost x y = fold (replace_le cost) candidates (INT_MAX, x, y)"

definition raster_less :: "int \<times> int \<Rightarrow> int \<times> int \<Rightarrow> bool" where
  "raster_less = (\<lambda>(y1, x1) (y2, x2). y1 < y2 \<or> (y1 = y2 \<and> x1 < x2))"

text \<open>A 64 x 64 frame that is 0 everywhere but at the offset \<open>i\<close>, where it is 255.\<close>

definition spot_frame :: "int \<Rightarrow> uint8 list" where
  "spot_frame i = (replicate 4096 0)[nat i := 255]"

text \<open>A 64 x 64 frame of constant value.\<close>

definition flat_frame :: "uint8 \<Rightarrow> uint8 list" where
  "flat_frame v = replicate 4096 v"

text \<open>A frame of the data model: a row-major buffer of \<open>width * height\<close> pixels.\<close>

definition frame :: "uint8 list \<Rightarrow> int \<Rightarrow> int \<Rightarrow> bool" where
  "frame img width height \<longleftrightarrow> 0 \<le> width \<and> 0 \<le> height \<and> int (length img) = width * height"

text \<open>The reads of \<open>match\<close> are inside the buffers at every grid cell that \<open>full_search\<close> visits.\<close>

definition grid_reads_ok :: "uint8 list \<Rightarrow> uint8 list \<Rightarrow> int \<Rightarrow> int \<Rightarrow> bool" where
  "grid_reads_ok prev cur width height \<longleftrightarrow>
     (\<forall>idy\<in>{2..c_div height 8 - 5}. \<forall>idx\<in>{2..c_div width 8 - 5}.
        match_reads_ok (idx * 8) (idy * 8) prev cur width)"

text \<open>
  The vector that the search finds for the block anchored at \<open>(posx, posy)\<close>, as stored in
  the field, and one iteration of \<open>full_search\<close> on a valid input: the vector of the cell
  \<open>(idx, idy)\<close> is stored at \<open>idy * nx + idx\<close>.
\<close>

definition best_vector :: "uint8 list \<Rightarrow> uint8 list \<Rightarrow> int \<Rightarrow> int \<Rightarrow> int \<Rightarrow> MVector" where
  "best_vector prev cur width posx posy =
     (case search_last_min (cost_at prev cur width posx posy) 0 0 of (c, dx, dy) \<Rightarrow>
        \<lparr>mv_x = word_of_int dx, mv_y = word_of_int dy\<rparr>)"

definition store_vector :: "uint8 list \<Rightarrow> uint8 list \<Rightarrow> int \<Rightarrow> int \<Rightarrow> int \<times> int \<Rightarrow> MVector list \<times> int \<times> int \<Rightarrow> MVector list \<times> int \<times> int" where
  "store_vector prev cur width nx = (\<lambda>(idy, idx) (mv, x, y).
     case search_last_min (cost_at prev cur width (idx * 8) (idy * 8)) 0 0 of (c, dx, dy) \<Rightarrow>
       (mv[nat (idy * nx + idx) := \<lparr>mv_x = word_of_int dx, mv_y = word_of_int dy\<rparr>], dx, dy))"

text \<open>
  The median filter as the specification words it. The nine samples of the 3 x 3
  neighbourhood of the pixel \<open>(row, col)\<close>, row-major from top-left to bottom-right, are
  read from the buffer as it is when the pixel is reached; the pixel becomes the 5th
  smallest of them; and the pixels strictly inside the 1-pixel border are visited row by
  row, left to right, each step working on the buffer the previous one left.
\<close>

definition neighbourhood :: "uint8 list \<Rightarrow> int \<Rightarrow> int \<Rightarrow> int \<Rightarrow> uint8 list" where
  "neighbourhood img width row col =
     [img ! nat ((row + dy) * width + (col + dx)). dy \<leftarrow> [-1..1], dx \<leftarrow> [-1..1]]"

definition medianFilter_step :: "int \<Rightarrow> int \<times> int \<Rightarrow> uint8 list \<Rightarrow> uint8 list" where
  "medianFilter_step width = (\<lambda>(row, col) img.
     img[nat (row * width + col) := sort (neighbourhood img width row col) ! 4])"

definition medianFilter :: "uint8 list \<Rightarrow> int \<Rightarrow> int \<Rightarrow> uint8 list" where
  "medianFilter img width height =
     fold (medianFilter_step width) (List.product [1..height - 2] [1..width - 2]) img"

text \<open>One comparison of \<open>insertion_sort\<close> on a valid index: the swap of \<open>jdx\<close> and \<open>jdx - 1\<close>.\<close>

definition swap_down :: "int \<Rightarrow> uint8 list \<Rightarrow> uint8 list" where
  "swap_down jdx a =
     (if a ! nat jdx < a ! nat (jdx - 1)
      then a[nat jdx := a ! nat (jdx - 1), nat (jdx - 1) := a ! nat jdx] else a)"

text \<open>A 4 x 3 frame with one outlier; it has two interior pixels.\<close>

definition noisy_frame :: "uint8 list" where
  "noisy_frame = [1, 2, 3, 4,  5, 200, 7, 8,  9, 10, 11, 12]"

text \<open>
  The field of 8 x 8 entries that is zero but at the four cells \<open>(2, 2)\<close>, \<open>(3, 2)\<close>,
  \<open>(2, 3)\<close> and \<open>(3, 3)\<close>, where it holds the last candidate \<open>(15, 15)\<close>.
\<close>

definition last_vector :: MVector where
  "last_vector = \<lparr>mv_x = 15, mv_y = 15\<rparr>"

definition flat_field :: "MVector list" where
  "flat_field = (replicate 64 zero_vector)[18 := last_vector, 19 := last_vector, 26 := last_vector, 27 := last_vector]"

section \<open>Loops, buffers and sums\<close>

declare upto_rec_numeral [simp del]

lemma for_loop_fold:
  assumes "I s" and "\<And>k t. k \<in> set ks \<Longrightarrow> I t \<Longrightarrow> body k t = Some (g k t) \<and> I (g k t)"
  shows "for_loop ks body s = Some (fold g ks s) \<and> I (fold g ks s)"
  using assms by (induction ks arbitrary: s) auto

lemma for_loop_fold_simple:
  assumes "\<And>k t. k \<in> set ks \<Longrightarrow> body k t = Some (g k t)"
  shows "for_loop ks body s = Some (fold g ks s)"
  using for_loop_fold [where I = "\<lambda>_. True" and body = body and g = g and ks = ks] assms by simp

lemma fold_product:
  "fold (\<lambda>y. fold (g y) xs) ys s = fold (\<lambda>(y, x). g y x) (List.product ys xs) s"
proof (induction ys arbitrary: s)
  case Nil
  show ?case by simp
next
  case (Cons y ys)
  have "fold (\<lambda>(y, x). g y x) (map (Pair y) xs) t = fold (g y) xs t" for t
    by (induction xs arbitrary: t) simp_all
  with Cons show ?case by simp
qed

lemma rd_in_buf: "in_buf a i \<Longrightarrow> rd a i = Some (a ! nat i)"
  by (simp add: rd_def in_buf_def)

lemma fold_add: "fold (\<lambda>x s. s + f x) xs (s::int) = s + sum_list (map f xs)"
  by (induction xs arbitrary: s) simp_all

lemma sum_list_bounds:
  assumes "\<And>x. x \<in> set xs \<Longrightarrow> 0 \<le> f x \<and> f x \<le> (b::int)"
  shows "0 \<le> sum_list (map f xs) \<and> sum_list (map f xs) \<le> int (length xs) * b"
  using assms
proof (induction xs)
  case Nil
  show ?case by simp
next
  case (Cons a xs)
  have "0 \<le> f a \<and> f a \<le> b" using Cons.prems by simp
  moreover have "0 \<le> sum_list (map f xs) \<and> sum_list (map f xs) \<le> int (length xs) * b"
    using Cons by simp
  ultimately show ?case by (simp add: algebra_simps)
qed

lemma sum_list_zero:
  assumes "\<And>x. x \<in> set xs \<Longrightarrow> f x = (0::int)"
  shows "sum_list (map f xs) = 0"
  using assms by (induction xs) simp_all

lemma sum_list_member_le:
  assumes "\<And>x. x \<in> set xs \<Longrightarrow> 0 \<le> f x" "a \<in> set xs"
  shows "f a \<le> (sum_list (map f xs) :: int)"
  using assms
proof (induction xs)
  case Nil
  then show ?case by simp
next
  case (Cons b xs)
  have nn: "0 \<le> sum_list (map f xs)"
    using Cons.prems(1) by (auto intro!: sum_list_nonneg)
  show ?case
  proof (cases "a = b")
    case True
    then show ?thesis using nn by simp
  next
    case False
    then have "f a \<le> sum_list (map f xs)"
      using Cons by simp
    moreover have "0 \<le> f b" using Cons.prems(1) by simp
    ultimately show ?thesis by simp
  qed
qed

lemma cell_in_buf:
  assumes "0 \<le> r" "r < h" "0 \<le> c" "c < w" "h * w \<le> int (length a)"
  shows "in_buf a (r * w + c)"
proof -
  have w: "0 < w" using assms by simp
  have "0 \<le> r * w" using assms w by simp
  moreover have "(r + 1) * w \<le> h * w"
    using assms w by (intro mult_right_mono) simp_all
  then have "r * w + c < h * w"
    using assms by (simp add: algebra_simps)
  ultimately show ?thesis
    using assms by (simp add: in_buf_def)
qed

lemma wr_in_buf: "in_buf a i \<Longrightarrow> wr a i v = Some (a[nat i := v])"
  by (simp add: wr_def in_buf_def)

lemma in_buf_update [simp]: "in_buf (a[k := v]) i = in_buf a i"
  by (simp add: in_buf_def)

lemma for_loop_inner_empty:
  "for_loop ks (\<lambda>k. for_loop [] (body k)) s = Some s"
  by (induction ks) simp_all

lemma grid_index_inj:
  assumes "0 \<le> a" "a < w" "0 \<le> b" "b < w" "r * w + a = q * w + (b::int)"
  shows "r = q \<and> a = b"
proof -
  have "(r * w + a) div w = r" "(q * w + b) div w = q"
    using assms(1-4) by simp_all
  then have "r = q" using assms(5) by simp
  with assms(5) show ?thesis by simp
qed

lemma mvector_updates: "(e::MVector)\<lparr>mv_x := a, mv_y := b\<rparr> = \<lparr>mv_x = a, mv_y = b\<rparr>"
  by (cases e) simp

lemma sint_small: "- 16 \<le> d \<Longrightarrow> d \<le> 15 \<Longrightarrow> sint (word_of_int d :: int8) = d"
  by (simp add: signed_of_int signed_take_bit_int_eq_self)

lemma c_div_nonneg: "0 \<le> a \<Longrightarrow> c_div a 8 = a div 8"
  by (cases "a = 0") (simp_all add: c_div_def)

section \<open>The sort of the nine samples\<close>

lemma sorted_mset_unique:
  fixes xs ys :: "'a::linorder list"
  assumes "sorted xs" "sorted ys" "mset xs = mset ys"
  shows "xs = ys"
proof -
  have "sort ys = xs" using assms by (intro properties_for_sort) simp_all
  moreover have "sort ys = ys" using assms by (intro properties_for_sort) simp_all
  ultimately show ?thesis by simp
qed

lemma insort_snoc_less:
  fixes v x :: "'a::linorder"
  assumes "sorted (xs @ [x])" "v < x"
  shows "insort v (xs @ [x]) = insort v xs @ [x]"
proof (rule sorted_mset_unique)
  show "sorted (insort v (xs @ [x]))"
    using assms by (simp add: sorted_insort)
  have "sorted (insort v xs)"
    using assms by (simp add: sorted_insort sorted_append)
  moreover have "\<forall>e\<in>set (insort v xs). e \<le> x"
    using assms by (auto simp: set_insort_key sorted_append)
  ultimately show "sorted (insort v xs @ [x])"
    by (simp add: sorted_append)
  show "mset (insort v (xs @ [x])) = mset (insort v xs @ [x])"
    by simp
qed

lemma insort_snoc_ge:
  fixes v :: "'a::linorder"
  assumes "sorted xs" "\<forall>e\<in>set xs. e \<le> v"
  shows "insort v xs = xs @ [v]"
proof (rule sorted_mset_unique)
  show "sorted (insort v xs)"
    using assms by (simp add: sorted_insort)
  show "sorted (xs @ [v])"
    using assms by (simp add: sorted_append)
  show "mset (insort v xs) = mset (xs @ [v])"
    by simp
qed

lemma upto_rev_Suc: "rev [1..int (Suc n)] = int (Suc n) # rev [1..int n]"
  using upto_rec2 [of 1 "int (Suc n)"] by simp

lemma swap_down_Suc:
  "swap_down (int (Suc n)) a = (if a ! Suc n < a ! n then a[Suc n := a ! n, n := a ! Suc n] else a)"
proof -
  have "nat (int (Suc n)) = Suc n" "nat (int (Suc n) - 1) = n"
    by simp_all
  then show ?thesis
    by (simp only: swap_down_def)
qed

lemma swap_pass:
  assumes "length xs = n" "sorted xs"
  shows "fold swap_down (rev [1..int n]) (xs @ v # ys) = insort v xs @ ys"
  using assms
proof (induction n arbitrary: xs v ys)
  case 0
  then show ?case by simp
next
  case (Suc n)
  then obtain xs' x where xs: "xs = xs' @ [x]" and len: "length xs' = n"
    by (metis length_Suc_conv_rev)
  have sx: "sorted xs'" and le: "\<forall>e\<in>set xs'. e \<le> x"
    using Suc.prems(2) by (simp_all add: xs sorted_append)
  have at: "(xs' @ x # v # ys) ! Suc n = v" "(xs' @ x # v # ys) ! n = x"
    using len by (simp_all add: nth_append)
  show ?case
  proof (cases "v < x")
    case True
    have "swap_down (int (Suc n)) (xs @ v # ys) = xs' @ v # x # ys"
      using True at len by (simp add: swap_down_Suc xs list_update_append del: of_nat_Suc)
    then have "fold swap_down (rev [1..int (Suc n)]) (xs @ v # ys)
                 = fold swap_down (rev [1..int n]) (xs' @ v # (x # ys))"
      by (simp add: upto_rev_Suc del: of_nat_Suc)
    also have "\<dots> = insort v xs' @ x # ys"
      by (rule Suc.IH [OF len sx])
    also have "\<dots> = insort v xs @ ys"
      using insort_snoc_less [of xs' x v] Suc.prems(2) True by (simp add: xs)
    finally show ?thesis .
  next
    case False
    have "swap_down (int (Suc n)) (xs @ v # ys) = xs' @ x # v # ys"
      using False at by (simp add: swap_down_Suc xs del: of_nat_Suc)
    then have "fold swap_down (rev [1..int (Suc n)]) (xs @ v # ys)
                 = fold swap_down (rev [1..int n]) (xs' @ x # (v # ys))"
      by (simp add: upto_rev_Suc del: of_nat_Suc)
    also have "\<dots> = insort x xs' @ v # ys"
      by (rule Suc.IH [OF len sx])
    also have "\<dots> = (xs' @ [x]) @ v # ys"
      using insort_snoc_ge [OF sx le] by simp
    also have "\<dots> = insort v xs @ ys"
    proof -
      have "\<forall>e\<in>set xs. e \<le> v"
        using False le by (auto simp: xs)
      from insort_snoc_ge [OF Suc.prems(2) this] show ?thesis
        by (simp add: xs)
    qed
    finally show ?thesis .
  qed
qed

lemma upto_Suc_snoc: "[1..int (Suc n)] = [1..int n] @ [int (Suc n)]"
  using upto_rec2 [of 1 "int (Suc n)"] by simp

lemma sort_snoc: "sort (xs @ [v]) = insort v (sort xs)"
  by (rule properties_for_sort) (simp_all add: sorted_insort)

lemma swap_passes:
  assumes "n < length a"
  shows "fold (\<lambda>idx. fold swap_down (rev [1..idx])) [1..int n] a
           = sort (take (Suc n) a) @ drop (Suc n) a"
  using assms
proof (induction n)
  case 0
  then show ?case
    by (cases a) simp_all
next
  case (Suc n)
  let ?xs = "sort (take (Suc n) a)"
  have split: "drop (Suc n) a = a ! Suc n # drop (Suc (Suc n)) a"
    using Suc.prems by (simp add: Cons_nth_drop_Suc)
  have len: "length ?xs = Suc n"
    using Suc.prems by simp
  have "fold (\<lambda>idx. fold swap_down (rev [1..idx])) [1..int (Suc n)] a
          = fold swap_down (rev [1..int (Suc n)]) (?xs @ drop (Suc n) a)"
    using Suc by (simp add: upto_Suc_snoc del: of_nat_Suc)
  also have "\<dots> = insort (a ! Suc n) ?xs @ drop (Suc (Suc n)) a"
    unfolding split by (rule swap_pass [OF len]) simp
  also have "insort (a ! Suc n) ?xs = sort (take (Suc (Suc n)) a)"
    using Suc.prems by (simp add: take_Suc_conv_app_nth [of "Suc n"] sort_snoc)
  finally show ?case .
qed

lemma swap_down_length [simp]: "length (swap_down jdx a) = length a"
  by (simp add: swap_down_def)

lemma insertion_sort_eq:
  assumes "1 \<le> sz" "sz = int (length pix_array)"
  shows "insertion_sort pix_array sz = Some (sort pix_array)"
proof -
  let ?I = "\<lambda>a :: uint8 list. length a = length pix_array"
  let ?body = "\<lambda>jdx pix_array. do {
          a \<leftarrow> rd pix_array jdx;
          b \<leftarrow> rd pix_array (jdx - 1);
          if uint a < uint b
          then do { pix_array' \<leftarrow> wr pix_array jdx b; wr pix_array' (jdx - 1) a }
          else Some pix_array }"
  have step: "?body jdx a = Some (swap_down jdx a) \<and> ?I (swap_down jdx a)"
    if "jdx \<in> set (rev [1..idx])" "idx \<in> set [1..sz - 1]" "?I a" for jdx idx a
  proof -
    have "in_buf a jdx" "in_buf a (jdx - 1)"
      using that assms by (simp_all add: in_buf_def)
    then show ?thesis
      using that(3) by (simp add: rd_in_buf wr_in_buf swap_down_def word_less_def)
  qed
  have inner: "for_loop (rev [1..idx]) ?body a = Some (fold swap_down (rev [1..idx]) a) \<and>
               ?I (fold swap_down (rev [1..idx]) a)"
    if "idx \<in> set [1..sz - 1]" "?I a" for idx a
    using that by (intro for_loop_fold [where I = ?I] step [of _ idx]) simp_all
  have "for_loop [1..sz - 1] (\<lambda>idx. for_loop (rev [1..idx]) ?body) pix_array
          = Some (fold (\<lambda>idx. fold swap_down (rev [1..idx])) [1..sz - 1] pix_array) \<and>
        ?I (fold (\<lambda>idx. fold swap_down (rev [1..idx])) [1..sz - 1] pix_array)"
    by (intro for_loop_fold [where I = ?I] inner) simp_all
  moreover have "sz - 1 = int (length pix_array - 1)" "length pix_array - 1 < length pix_array"
    using assms by simp_all
  ultimately show ?thesis
    using swap_passes [of "length pix_array - 1" pix_array] assms
    by (simp add: insertion_sort_def)
qed

section \<open>The filter\<close>

lemma upto_m1_1: "[-1..1] = [-1, 0, 1::int]"
  by (simp add: upto.simps)

lemma list9:
  assumes "length xs = 9"
  obtains a b c d e f g h i where "xs = [a, b, c, d, e, f, g, h, i]"
proof -
  from assms have "length xs = Suc (Suc (Suc (Suc (Suc (Suc (Suc (Suc (Suc 0))))))))"
    by simp
  then show ?thesis
    using that by (auto simp: length_Suc_conv)
qed

lemma matrix_to_array_eq:
  assumes len: "length pix_array = 9"
    and ok: "\<And>y x. y \<in> {-1..1} \<Longrightarrow> x \<in> {-1..1} \<Longrightarrow> in_buf img ((row + y) * width + (col + x))"
  shows "matrix_to_array pix_array img (row * width + col) width = Some (neighbourhood img width row col)"
proof -
  have idx: "row * width + col + x + width * y = (row + y) * width + (col + x)" for x y
    by (simp add: algebra_simps)
  have rd: "rd img (row * width + col + x + width * y) = Some (img ! nat ((row + y) * width + (col + x)))"
    if "y \<in> {-1..1}" "x \<in> {-1..1}" for x y
    unfolding idx using ok [OF that] by (rule rd_in_buf)
  obtain a b c d e f g h i where p: "pix_array = [a, b, c, d, e, f, g, h, i]"
    using len by (rule list9)
  have m: "- 1 \<in> {-1..1::int}" and z: "0 \<in> {-1..1::int}" and o: "1 \<in> {-1..1::int}"
    by simp_all
  note rds = rd [OF m m, simplified] rd [OF m z, simplified] rd [OF m o, simplified]
    rd [OF z m, simplified] rd [OF z z, simplified] rd [OF z o, simplified]
    rd [OF o m, simplified] rd [OF o z, simplified] rd [OF o o, simplified]
  show ?thesis
    unfolding matrix_to_array_def neighbourhood_def upto_m1_1
    by (simp add: rds wr_def p)
qed

lemma length_neighbourhood [simp]: "length (neighbourhood img width row col) = 9"
  by (simp add: neighbourhood_def upto_m1_1)

lemma medianFilter_step_length [simp]: "length (medianFilter_step width rc img) = length img"
  by (cases rc) (simp add: medianFilter_step_def)

lemma fold_fst_pair:
  "fst (fold (\<lambda>k (s, t). (f k s, g k s)) ks (s, t)) = fold f ks s"
  by (induction ks arbitrary: s t) simp_all

lemma median3x3_eq:
  assumes len: "height * width \<le> int (length img)"
  shows "median3x3 img width height = Some (medianFilter img width height)"
proof -
  let ?I = "\<lambda>s :: uint8 list \<times> uint8 list. length (fst s) = length img \<and> length (snd s) = 9"
  let ?g = "\<lambda>row col (img, pix_array :: uint8 list).
              (medianFilter_step width (row, col) img, sort (neighbourhood img width row col))"
  let ?body = "\<lambda>row col (img, pix_array). do {
            let ptr = row * width + col;
            pix_array1 \<leftarrow> matrix_to_array pix_array img ptr width;
            pix_array2 \<leftarrow> insertion_sort pix_array1 9;
            m \<leftarrow> rd pix_array2 4;
            img' \<leftarrow> wr img ptr m;
            Some (img', pix_array2) }"
  have step: "?body row col t = Some (?g row col t) \<and> ?I (?g row col t)"
    if r: "row \<in> set [1..height - 2]" "col \<in> set [1..width - 2]" and inv: "?I t" for row col t
  proof -
    obtain im pix where t: "t = (im, pix)" by (cases t)
    have li: "length im = length img" and lp: "length pix = 9"
      using inv by (simp_all add: t)
    have b: "1 \<le> row" "row \<le> height - 2" "1 \<le> col" "col \<le> width - 2"
      using r by simp_all
    have inb: "in_buf im ((row + y) * width + (col + x))" if "y \<in> {-1..1}" "x \<in> {-1..1}" for y x
      using that b len li by (intro cell_in_buf [where h = height]) simp_all
    have nb: "matrix_to_array pix im (row * width + col) width = Some (neighbourhood im width row col)"
      using lp inb by (rule matrix_to_array_eq)
    have srt: "insertion_sort (neighbourhood im width row col) 9 = Some (sort (neighbourhood im width row col))"
      by (rule insertion_sort_eq) simp_all
    have med: "rd (sort (neighbourhood im width row col)) 4 = Some (sort (neighbourhood im width row col) ! 4)"
      by (simp add: rd_def)
    have "in_buf im ((row + 0) * width + (col + 0))"
      by (rule inb) simp_all
    then have w: "wr im (row * width + col) v = Some (im[nat (row * width + col) := v])" for v
      by (simp add: wr_in_buf)
    show ?thesis
      by (simp add: t nb srt med w medianFilter_step_def li)
  qed
  have inner: "for_loop [1..width - 2] (?body row) t = Some (fold (?g row) [1..width - 2] t) \<and>
               ?I (fold (?g row) [1..width - 2] t)"
    if "row \<in> set [1..height - 2]" "?I t" for row t
    using that by (intro for_loop_fold [where I = ?I] step) simp_all
  have "for_loop [1..height - 2] (\<lambda>row. for_loop [1..width - 2] (?body row)) (img, replicate 9 0)
          = Some (fold (\<lambda>row. fold (?g row) [1..width - 2]) [1..height - 2] (img, replicate 9 0)) \<and>
        ?I (fold (\<lambda>row. fold (?g row) [1..width - 2]) [1..height - 2] (img, replicate 9 0))"
    by (intro for_loop_fold [where I = ?I] inner) simp_all
  then have "median3x3 img width height
               = Some (fst (fold (\<lambda>(row, col). ?g row col)
                        (List.product [1..height - 2] [1..width - 2]) (img, replicate 9 0)))"
    by (simp add: median3x3_def fold_product)
  also have "(\<lambda>(row, col). ?g row col)
               = (\<lambda>k (s, t). (medianFilter_step width k s, sort (neighbourhood s width (fst k) (snd k))))"
    by (auto simp: fun_eq_iff)
  finally show ?thesis
    by (simp only: fold_fst_pair medianFilter_def)
qed

lemma medianFilter_fold_length [simp]:
  "length (fold (medianFilter_step width) cells img) = length img"
  by (induction cells arbitrary: img) simp_all

lemma medianFilter_fold_other:
  assumes "\<forall>(row, col)\<in>set cells. nat (row * width + col) \<noteq> i"
  shows "fold (medianFilter_step width) cells img ! i = img ! i"
  using assms
proof (induction cells arbitrary: img)
  case Nil
  show ?case by simp
next
  case (Cons k cells)
  obtain row col where k: "k = (row, col)" by (cases k)
  have "fold (medianFilter_step width) cells (medianFilter_step width k img) ! i
          = medianFilter_step width k img ! i"
    using Cons.prems by (intro Cons.IH) simp
  also have "\<dots> = img ! i"
    using Cons.prems by (simp add: k medianFilter_step_def)
  finally show ?case by simp
qed

lemma noisy_filtered: "medianFilter noisy_frame 4 3 = [1, 2, 3, 4,  5, 7, 7, 8,  9, 10, 11, 12]"
  by code_simp

section \<open>The filter works in place, in raster order\<close>

text \<open>
  C4. On a frame of \<open>width * height\<close> pixels \<open>median3x3\<close> returns, and its result is that
  of \<open>medianFilter\<close>: the pixels of the rows \<open>1 .. height - 2\<close> and columns
  \<open>1 .. width - 2\<close> are visited row by row, left to right; each is replaced by the 5th
  smallest of the nine samples of its 3 x 3 neighbourhood, sorted ascending; and the
  samples are read from the buffer as the earlier replacements of the same pass left it.
\<close>

theorem median3x3_in_place:
  assumes "frame img width height"
  shows "median3x3 img width height = Some (medianFilter img width height)"
  using assms by (intro median3x3_eq) (simp add: frame_def mult.commute)

text \<open>
  In the 4 x 3 frame the outlier 200 becomes 7, and its right neighbour becomes 7 as well:
  it sees the 7 already written (on the unfiltered frame its median would be 8).
\<close>

theorem median3x3_in_place_witness:
  "frame noisy_frame 4 3 \<and>
   median3x3 noisy_frame 4 3 = Some [1, 2, 3, 4,  5, 7, 7, 8,  9, 10, 11, 12]"
proof -
  have f: "frame noisy_frame 4 3"
    by (simp add: frame_def noisy_frame_def)
  from median3x3_in_place [OF f] f show ?thesis
    by (simp add: noisy_filtered)
qed

section \<open>The border is left alone\<close>

text \<open>
  C5. On a frame of \<open>width * height\<close> pixels \<open>median3x3\<close> returns a buffer of the same
  length in which every pixel of row 0, row \<open>height - 1\<close>, column 0 and column
  \<open>width - 1\<close> is unchanged; more generally every position that is not the position
  \<open>row * width + col\<close> of an interior pixel (\<open>row\<close> in \<open>1 .. height - 2\<close>, \<open>col\<close> in
  \<open>1 .. width - 2\<close>) is unchanged: only interior pixels are written.
\<close>

theorem median3x3_border:
  assumes "frame img width height"
  shows "\<exists>img'. median3x3 img width height = Some img' \<and> length img' = length img \<and>
           (\<forall>row\<in>{0..height - 1}. \<forall>col\<in>{0..width - 1}.
              row = 0 \<or> row = height - 1 \<or> col = 0 \<or> col = width - 1 \<longrightarrow>
              img' ! nat (row * width + col) = img ! nat (row * width + col)) \<and>
           (\<forall>i<length img.
              (\<forall>row\<in>{1..height - 2}. \<forall>col\<in>{1..width - 2}. i \<noteq> nat (row * width + col)) \<longrightarrow>
              img' ! i = img ! i)"
proof -
  let ?cells = "List.product [1..height - 2] [1..width - 2]"
  let ?img' = "medianFilter img width height"
  have m: "median3x3 img width height = Some ?img'"
    using assms by (intro median3x3_eq) (simp add: frame_def mult.commute)
  have l: "length ?img' = length img"
    by (simp add: medianFilter_def)
  have other: "?img' ! i = img ! i"
    if "\<forall>row\<in>{1..height - 2}. \<forall>col\<in>{1..width - 2}. i \<noteq> nat (row * width + col)" for i
    unfolding medianFilter_def using that by (intro medianFilter_fold_other) auto
  have border: "?img' ! nat (row * width + col) = img ! nat (row * width + col)"
    if g: "row \<in> {0..height - 1}" "col \<in> {0..width - 1}"
      and b: "row = 0 \<or> row = height - 1 \<or> col = 0 \<or> col = width - 1" for row col
  proof (rule other, intro ballI notI)
    fix r c
    assume k: "r \<in> {1..height - 2}" "c \<in> {1..width - 2}"
      and eq: "nat (row * width + col) = nat (r * width + c)"
    have "0 \<le> row * width + col" "0 \<le> r * width + c"
      using g k by simp_all
    then have "row * width + col = r * width + c"
      using eq by simp
    then have "row = r \<and> col = c"
      using g k by (intro grid_index_inj [where w = width]) simp_all
    with k b show False by auto
  qed
  from m l other border show ?thesis by blast
qed

theorem median3x3_border_witness:
  "frame noisy_frame 4 3 \<and>
   (\<exists>img'. median3x3 noisy_frame 4 3 = Some img' \<and> length img' = 12 \<and>
      img' ! 0 = 1 \<and> img' ! 3 = 4 \<and> img' ! 4 = 5 \<and> img' ! 7 = 8 \<and> img' ! 8 = 9 \<and> img' ! 11 = 12)"
proof -
  have f: "frame noisy_frame 4 3"
    by (simp add: frame_def noisy_frame_def)
  from median3x3_border [OF f]
  obtain img' where m: "median3x3 noisy_frame 4 3 = Some img'"
    and l: "length img' = length noisy_frame"
    and b: "\<forall>row\<in>{0..3 - 1}. \<forall>col\<in>{0..4 - 1}.
              row = 0 \<or> row = 3 - 1 \<or> col = 0 \<or> col = 4 - 1 \<longrightarrow>
              img' ! nat (row * 4 + col) = noisy_frame ! nat (row * 4 + col)"
    by blast
  have "img' ! 0 = 1" using b [rule_format, of 0 0] by (simp add: noisy_frame_def)
  moreover have "img' ! 3 = 4" using b [rule_format, of 0 3] by (simp add: noisy_frame_def)
  moreover have "img' ! 4 = 5" using b [rule_format, of 1 0] by (simp add: noisy_frame_def)
  moreover have "img' ! 7 = 8" using b [rule_format, of 1 3] by (simp add: noisy_frame_def)
  moreover have "img' ! 8 = 9" using b [rule_format, of 2 0] by (simp add: noisy_frame_def)
  moreover have "img' ! 11 = 12" using b [rule_format, of 2 3] by (simp add: noisy_frame_def)
  moreover have "length img' = 12" using l by (simp add: noisy_frame_def)
  ultimately show ?thesis using m f by simp
qed

section \<open>The cost of a candidate\<close>

lemma compute_sad_eq:
  assumes "sad_reads_ok prev cur width px py cx cy"
  shows "compute_sad prev cur width px py cx cy = Some (sad prev cur width px py cx cy)"
proof -
  let ?d = "\<lambda>y x. \<bar>uint (prev ! nat ((py + y) * width + (px + x))) - uint (cur ! nat ((cy + y) * width + (cx + x)))\<bar>"
  let ?inner = "\<lambda>y. for_loop [0..15] (\<lambda>x sad. do {
          p \<leftarrow> rd prev ((py + y) * width + (px + x));
          c \<leftarrow> rd cur ((cy + y) * width + (cx + x));
          Some (sad + \<bar>uint p - uint c\<bar>) })"
  have inner: "?inner y s = Some (s + (\<Sum>x\<leftarrow>[0..15]. ?d y x))" if "y \<in> set [0..15]" for y s
  proof -
    have "?inner y s = Some (fold (\<lambda>x s. s + ?d y x) [0..15] s)"
      using assms that by (intro for_loop_fold_simple) (simp add: sad_reads_ok_def rd_in_buf)
    then show ?thesis by (simp only: fold_add)
  qed
  have "for_loop [0..15] ?inner 0 = Some (fold (\<lambda>y s. s + (\<Sum>x\<leftarrow>[0..15]. ?d y x)) [0..15] 0)"
    by (intro for_loop_fold_simple inner)
  then show ?thesis
    by (simp add: compute_sad_def BSIZE_def sad_def fold_add)
qed

lemma length_upto_16: "length [0..15] = 16"
  by simp

lemma sad_bounds: "0 \<le> sad prev cur width px py cx cy \<and> sad prev cur width px py cx cy \<le> 65280"
proof -
  let ?d = "\<lambda>y x. \<bar>uint (prev ! nat ((py + y) * width + (px + x))) - uint (cur ! nat ((cy + y) * width + (cx + x)))\<bar>"
  have d: "0 \<le> ?d y x \<and> ?d y x \<le> 255" for y x
  proof -
    have "uint (a :: uint8) < 256" "0 \<le> uint a" for a
      using uint_bounded [of a] by simp_all
    then show ?thesis
      by (smt (verit))
  qed
  have row: "0 \<le> (\<Sum>x\<leftarrow>[0..15]. ?d y x) \<and> (\<Sum>x\<leftarrow>[0..15]. ?d y x) \<le> 4080" for y
    using sum_list_bounds [of "[0..15]" "?d y" 255] d by simp
  show ?thesis
    unfolding sad_def
    using sum_list_bounds [of "[0..15]" "\<lambda>y. (\<Sum>x\<leftarrow>[0..15]. ?d y x)" 4080] row by simp
qed

lemma cost_at_bound: "cost_at prev cur width posx posy mvx mvy \<le> INT_MAX"
  using sad_bounds [of prev cur width "posx + mvx" "posy + mvy" posx posy]
  by (simp add: cost_at_def INT_MAX_def)

lemma sad_constant:
  assumes "sad_reads_ok (replicate n v) (replicate m v) width px py cx cy"
  shows "sad (replicate n v) (replicate m v) width px py cx cy = 0"
  unfolding sad_def
proof (intro sum_list_zero)
  fix y x :: int
  assume "y \<in> set [0..15]" "x \<in> set [0..15]"
  then have "in_buf (replicate n v) ((py + y) * width + (px + x)) \<and>
             in_buf (replicate m v) ((cy + y) * width + (cx + x))"
    using assms by (simp add: sad_reads_ok_def)
  then have "nat ((py + y) * width + (px + x)) < n \<and> nat ((cy + y) * width + (cx + x)) < m"
    by (simp add: in_buf_def nat_less_iff)
  then show "\<bar>uint (replicate n v ! nat ((py + y) * width + (px + x))) -
        uint (replicate m v ! nat ((cy + y) * width + (cx + x)))\<bar> = 0"
    by simp
qed

section \<open>The search over the candidates\<close>

lemma set_candidates: "set candidates = {-16..15} \<times> {-16..15}"
  by (simp add: candidates_def)

lemma match_eq_fold:
  assumes "match_reads_ok posx posy prev cur width"
  shows "match x y posx posy prev cur width
           = Some (search_last_min (cost_at prev cur width posx posy) x y)"
proof -
  let ?cost = "cost_at prev cur width posx posy"
  let ?body = "\<lambda>mvy mvx (min_sad, x, y). do {
          sad \<leftarrow> compute_sad prev cur width (posx + mvx) (posy + mvy) posx posy;
          Some (if sad \<le> min_sad then (sad, mvx, mvy) else (min_sad, x, y)) }"
  have step: "?body mvy mvx t = Some (replace_le ?cost (mvy, mvx) t)"
    if "mvy \<in> set [-16..15]" "mvx \<in> set [-16..15]" for mvy mvx t
  proof -
    have "sad_reads_ok prev cur width (posx + mvx) (posy + mvy) posx posy"
      using assms that by (simp add: match_reads_ok_def)
    then show ?thesis
      by (cases t) (simp add: compute_sad_eq replace_le_def cost_at_def)
  qed
  have inner: "for_loop [-16..15] (?body mvy) t
                 = Some (fold (\<lambda>mvx. replace_le ?cost (mvy, mvx)) [-16..15] t)"
    if "mvy \<in> set [-16..15]" for mvy t
    using that by (intro for_loop_fold_simple step)
  have "for_loop [-16..15] (\<lambda>mvy. for_loop [-16..15] (?body mvy)) t
          = Some (fold (\<lambda>mvy. fold (\<lambda>mvx. replace_le ?cost (mvy, mvx)) [-16..15]) [-16..15] t)" for t
    by (intro for_loop_fold_simple inner)
  then show ?thesis
    by (simp add: match_def BSIZE_def search_last_min_def candidates_def fold_product)
qed

text \<open>The running best of a scan with non-strict replacement.\<close>

lemma fold_replace_le_lower:
  "fst (fold (replace_le cost) L (m, x, y)) \<le> m \<and>
   (\<forall>(mvy, mvx)\<in>set L. fst (fold (replace_le cost) L (m, x, y)) \<le> cost mvx mvy)"
proof (induction L arbitrary: m x y)
  case Nil
  show ?case by simp
next
  case (Cons e L)
  obtain mvy mvx where e: "e = (mvy, mvx)" by (cases e)
  show ?case
  proof (cases "cost mvx mvy \<le> m")
    case True
    then show ?thesis
      using Cons [of "cost mvx mvy" mvx mvy] by (auto simp: e replace_le_def)
  next
    case False
    then show ?thesis
      using Cons [of m x y] by (auto simp: e replace_le_def)
  qed
qed

lemma fold_replace_le_last:
  assumes "fold (replace_le cost) L (m, x, y) = (c, dx, dy)"
  shows "((c, dx, dy) = (m, x, y) \<and> (\<forall>(mvy, mvx)\<in>set L. m < cost mvx mvy)) \<or>
         (\<exists>L1 L2. L = L1 @ (dy, dx) # L2 \<and> c = cost dx dy \<and> (\<forall>(mvy, mvx)\<in>set L2. c < cost mvx mvy))"
  using assms
proof (induction L arbitrary: m x y)
  case Nil
  then show ?case by simp
next
  case (Cons e L)
  obtain mvy mvx where e: "e = (mvy, mvx)" by (cases e)
  show ?case
  proof (cases "cost mvx mvy \<le> m")
    case True
    then have f: "fold (replace_le cost) L (cost mvx mvy, mvx, mvy) = (c, dx, dy)"
      using Cons.prems by (simp add: e replace_le_def)
    from Cons.IH [OF f] show ?thesis
    proof
      assume a: "(c, dx, dy) = (cost mvx mvy, mvx, mvy) \<and> (\<forall>(mvy', mvx')\<in>set L. cost mvx mvy < cost mvx' mvy')"
      then have "e # L = [] @ (dy, dx) # L \<and> c = cost dx dy \<and> (\<forall>(mvy, mvx)\<in>set L. c < cost mvx mvy)"
        by (simp add: e)
      then show ?thesis by blast
    next
      assume "\<exists>L1 L2. L = L1 @ (dy, dx) # L2 \<and> c = cost dx dy \<and> (\<forall>(mvy, mvx)\<in>set L2. c < cost mvx mvy)"
      then obtain L1 L2 where "L = L1 @ (dy, dx) # L2" "c = cost dx dy" "\<forall>(mvy, mvx)\<in>set L2. c < cost mvx mvy"
        by blast
      then have "e # L = (e # L1) @ (dy, dx) # L2 \<and> c = cost dx dy \<and> (\<forall>(mvy, mvx)\<in>set L2. c < cost mvx mvy)"
        by simp
      then show ?thesis by blast
    qed
  next
    case False
    then have f: "fold (replace_le cost) L (m, x, y) = (c, dx, dy)"
      using Cons.prems by (simp add: e replace_le_def)
    from Cons.IH [OF f] show ?thesis
    proof
      assume "(c, dx, dy) = (m, x, y) \<and> (\<forall>(mvy, mvx)\<in>set L. m < cost mvx mvy)"
      then show ?thesis using False by (simp add: e)
    next
      assume "\<exists>L1 L2. L = L1 @ (dy, dx) # L2 \<and> c = cost dx dy \<and> (\<forall>(mvy, mvx)\<in>set L2. c < cost mvx mvy)"
      then obtain L1 L2 where "L = L1 @ (dy, dx) # L2" "c = cost dx dy" "\<forall>(mvy, mvx)\<in>set L2. c < cost mvx mvy"
        by blast
      then have "e # L = (e # L1) @ (dy, dx) # L2 \<and> c = cost dx dy \<and> (\<forall>(mvy, mvx)\<in>set L2. c < cost mvx mvy)"
        by simp
      then show ?thesis by blast
    qed
  qed
qed

lemma sorted_wrt_product:
  assumes "sorted_wrt (<) ys" "sorted_wrt (<) xs"
  shows "sorted_wrt raster_less (List.product ys xs)"
  using assms
proof (induction ys)
  case Nil
  show ?case by simp
next
  case (Cons y ys)
  have "sorted_wrt raster_less (map (Pair y) xs)"
    using Cons.prems(2) by (simp add: sorted_wrt_map raster_less_def)
  then show ?case
    using Cons by (auto simp: sorted_wrt_append raster_less_def)
qed

lemma sorted_candidates: "sorted_wrt raster_less candidates"
  unfolding candidates_def by (intro sorted_wrt_product sorted_wrt_upto)

lemma search_last_min_props:
  assumes bound: "\<And>mvx mvy. cost mvx mvy \<le> INT_MAX"
    and res: "search_last_min cost x y = (c, dx, dy)"
  shows "dx \<in> {-16..15} \<and> dy \<in> {-16..15} \<and> c = cost dx dy \<and>
         (\<forall>mvy\<in>{-16..15}. \<forall>mvx\<in>{-16..15}.
            c \<le> cost mvx mvy \<and> (cost mvx mvy = c \<longrightarrow> mvy < dy \<or> (mvy = dy \<and> mvx \<le> dx)))"
proof -
  have fold: "fold (replace_le cost) candidates (INT_MAX, x, y) = (c, dx, dy)"
    using res by (simp add: search_last_min_def)
  have "(0, 0) \<in> set candidates"
    by (simp add: set_candidates)
  then have "\<not> (\<forall>(mvy, mvx)\<in>set candidates. INT_MAX < cost mvx mvy)"
    using bound [of 0 0] by fastforce
  with fold_replace_le_last [OF fold]
  obtain L1 L2 where split: "candidates = L1 @ (dy, dx) # L2" and c: "c = cost dx dy"
    and after: "\<forall>(mvy, mvx)\<in>set L2. c < cost mvx mvy"
    by blast
  have "(dy, dx) \<in> set candidates"
    by (simp add: split)
  then have range: "dx \<in> {-16..15} \<and> dy \<in> {-16..15}"
    by (simp add: set_candidates)
  have before: "\<forall>e\<in>set L1. raster_less e (dy, dx)"
    using sorted_candidates by (simp add: split sorted_wrt_append)
  have lower: "\<forall>(mvy, mvx)\<in>set candidates. c \<le> cost mvx mvy"
    using fold_replace_le_lower [of cost candidates INT_MAX x y] by (simp add: fold)
  have "c \<le> cost mvx mvy \<and> (cost mvx mvy = c \<longrightarrow> mvy < dy \<or> (mvy = dy \<and> mvx \<le> dx))"
    if "mvy \<in> {-16..15}" "mvx \<in> {-16..15}" for mvx mvy
  proof
    have mem: "(mvy, mvx) \<in> set candidates"
      using that by (simp add: set_candidates)
    then show "c \<le> cost mvx mvy"
      using lower by blast
    show "cost mvx mvy = c \<longrightarrow> mvy < dy \<or> (mvy = dy \<and> mvx \<le> dx)"
    proof
      assume tie: "cost mvx mvy = c"
      from mem have "(mvy, mvx) \<in> set L1 \<or> (mvy, mvx) = (dy, dx) \<or> (mvy, mvx) \<in> set L2"
        by (auto simp: split)
      then show "mvy < dy \<or> (mvy = dy \<and> mvx \<le> dx)"
      proof (elim disjE)
        assume "(mvy, mvx) \<in> set L1"
        then have "raster_less (mvy, mvx) (dy, dx)"
          using before by blast
        then show ?thesis by (auto simp: raster_less_def)
      next
        assume "(mvy, mvx) = (dy, dx)"
        then show ?thesis by simp
      next
        assume "(mvy, mvx) \<in> set L2"
        then have "c < cost mvx mvy"
          using after by blast
        then show ?thesis using tie by simp
      qed
    qed
  qed
  with range c show ?thesis by blast
qed

lemma search_last_min_indep:
  assumes bound: "\<And>mvx mvy. cost mvx mvy \<le> INT_MAX"
  shows "search_last_min cost x y = search_last_min cost x' y'"
proof -
  obtain c dx dy where r: "search_last_min cost x y = (c, dx, dy)"
    by (cases "search_last_min cost x y")
  obtain c' dx' dy' where r': "search_last_min cost x' y' = (c', dx', dy')"
    by (cases "search_last_min cost x' y'")
  note p = search_last_min_props [OF bound r]
  note p' = search_last_min_props [OF bound r']
  have in_range: "dx \<in> {-16..15}" "dy \<in> {-16..15}" "dx' \<in> {-16..15}" "dy' \<in> {-16..15}"
    using p p' by simp_all
  have all: "\<And>mvx mvy. mvy \<in> {-16..15} \<Longrightarrow> mvx \<in> {-16..15} \<Longrightarrow>
      c \<le> cost mvx mvy \<and> (cost mvx mvy = c \<longrightarrow> mvy < dy \<or> (mvy = dy \<and> mvx \<le> dx))"
    using p by blast
  have all': "\<And>mvx mvy. mvy \<in> {-16..15} \<Longrightarrow> mvx \<in> {-16..15} \<Longrightarrow>
      c' \<le> cost mvx mvy \<and> (cost mvx mvy = c' \<longrightarrow> mvy < dy' \<or> (mvy = dy' \<and> mvx \<le> dx'))"
    using p' by blast
  have c: "c = cost dx dy" and c': "c' = cost dx' dy'"
    using p p' by simp_all
  have "c \<le> c'" using all [OF in_range(4) in_range(3)] c' by simp
  moreover have "c' \<le> c" using all' [OF in_range(2) in_range(1)] c by simp
  ultimately have cc: "c = c'" by simp
  have "dy' < dy \<or> (dy' = dy \<and> dx' \<le> dx)"
    using all [OF in_range(4) in_range(3)] c' cc by simp
  moreover have "dy < dy' \<or> (dy = dy' \<and> dx \<le> dx')"
    using all' [OF in_range(2) in_range(1)] c cc by simp
  ultimately have "dx = dx' \<and> dy = dy'" by auto
  with cc r r' show ?thesis by simp
qed

lemma match_props:
  assumes ok: "match_reads_ok posx posy prev cur width"
  shows "\<exists>c dx dy. match x y posx posy prev cur width = Some (c, dx, dy) \<and>
           (c, dx, dy) = search_last_min (cost_at prev cur width posx posy) 0 0 \<and>
           (dx \<in> {-16..15} \<and> dy \<in> {-16..15} \<and> c = cost_at prev cur width posx posy dx dy \<and>
           (\<forall>mvy\<in>{-16..15}. \<forall>mvx\<in>{-16..15}.
              c \<le> cost_at prev cur width posx posy mvx mvy \<and>
              (cost_at prev cur width posx posy mvx mvy = c \<longrightarrow> mvy < dy \<or> (mvy = dy \<and> mvx \<le> dx))))"
proof -
  let ?cost = "cost_at prev cur width posx posy"
  obtain c dx dy where r: "search_last_min ?cost x y = (c, dx, dy)"
    by (cases "search_last_min ?cost x y")
  have s: "(c, dx, dy) = search_last_min ?cost 0 0"
    using search_last_min_indep [of ?cost 0 0 x y] r by (simp add: cost_at_bound)
  have m: "match x y posx posy prev cur width = Some (c, dx, dy)"
    using match_eq_fold [OF ok] r by simp
  note p = search_last_min_props [of ?cost x y c dx dy, OF cost_at_bound r]
  from m s p show ?thesis by blast
qed

lemma match_reads_ok_window:
  assumes "16 \<le> posx" "posx + 31 \<le> width" "16 \<le> posy"
    and "(posy + 31) * width \<le> int (length prev)" "(posy + 31) * width \<le> int (length cur)"
  shows "match_reads_ok posx posy prev cur width"
  unfolding match_reads_ok_def sad_reads_ok_def
proof (intro ballI conjI)
  fix mvy mvx y x :: int
  assume "mvy \<in> {-16..15}" "mvx \<in> {-16..15}" "y \<in> {0..15}" "x \<in> {0..15}"
  then have b: "-16 \<le> mvy" "mvy \<le> 15" "-16 \<le> mvx" "mvx \<le> 15" "0 \<le> y" "y \<le> 15" "0 \<le> x" "x \<le> 15"
    by simp_all
  show "in_buf prev ((posy + mvy + y) * width + (posx + mvx + x))"
    using assms b by (intro cell_in_buf [where h = "posy + 31"]) simp_all
  show "in_buf cur ((posy + y) * width + (posx + x))"
    using assms b by (intro cell_in_buf [where h = "posy + 31"]) simp_all
qed

section \<open>Two pairs of test frames\<close>

text \<open>Identical constant frames: every candidate costs 0, and the last one is returned.\<close>

lemma match_flat:
  assumes ok: "match_reads_ok posx posy (replicate n v) (replicate m v) width"
  shows "match x y posx posy (replicate n v) (replicate m v) width = Some (0, 15, 15)"
proof -
  let ?cost = "cost_at (replicate n v) (replicate m v) width posx posy"
  have zero: "?cost mvx mvy = 0" if "mvy \<in> {-16..15}" "mvx \<in> {-16..15}" for mvx mvy
    unfolding cost_at_def using ok that by (intro sad_constant) (simp add: match_reads_ok_def)
  from match_props [OF ok, of x y]
  obtain c dx dy where m: "match x y posx posy (replicate n v) (replicate m v) width = Some (c, dx, dy)"
    and range: "dx \<in> {-16..15}" "dy \<in> {-16..15}" and c: "c = ?cost dx dy"
    and tie: "\<forall>mvy\<in>{-16..15}. \<forall>mvx\<in>{-16..15}.
                c \<le> ?cost mvx mvy \<and> (?cost mvx mvy = c \<longrightarrow> mvy < dy \<or> (mvy = dy \<and> mvx \<le> dx))"
    by blast
  have c0: "c = 0" using c zero [OF range(2) range(1)] by simp
  have "?cost 15 15 = c" using zero [of 15 15] c0 by simp
  then have "15 < dy \<or> (15 = dy \<and> 15 \<le> dx)"
    using tie [rule_format, of 15 15] by simp
  then have "dx = 15 \<and> dy = 15" using range by auto
  with m c0 show ?thesis by simp
qed

lemma flat_reads_ok: "match_reads_ok 16 16 (flat_frame v) (flat_frame v) 64"
  by (rule match_reads_ok_window) (simp_all add: flat_frame_def)

lemma flat_frame_frame: "frame (flat_frame v) 64 64"
  by (simp add: frame_def flat_frame_def)

text \<open>
  A pair with exactly one exact match: \<open>cur\<close> has its only bright pixel at the anchor
  \<open>(16, 16)\<close> and \<open>prev\<close> has it at \<open>(19, 14)\<close>.
\<close>

lemma spot_frame_nth:
  "0 \<le> i \<Longrightarrow> i < 4096 \<Longrightarrow> 0 \<le> j \<Longrightarrow> j < 4096 \<Longrightarrow> spot_frame i ! nat j = (if j = i then 255 else 0)"
  by (auto simp: spot_frame_def nth_list_update nat_less_iff)

lemma spot_reads_ok: "match_reads_ok 16 16 (spot_frame 915) (spot_frame 1040) 64"
  by (rule match_reads_ok_window) (simp_all add: spot_frame_def)

lemma spot_cost_hit: "sad (spot_frame 915) (spot_frame 1040) 64 (16 + 3) (16 + - 2) 16 16 = 0"
  unfolding sad_def
proof (intro sum_list_zero)
  fix y x :: int
  assume "y \<in> set [0..15]" "x \<in> set [0..15]"
  then have b: "0 \<le> y" "y \<le> 15" "0 \<le> x" "x \<le> 15" by simp_all
  have "(16 + - 2 + y) * 64 + (16 + 3 + x) = 915 \<longleftrightarrow> y = 0 \<and> x = 0"
    using b by (cases "y = 0") auto
  then have p: "spot_frame 915 ! nat ((16 + - 2 + y) * 64 + (16 + 3 + x)) = (if y = 0 \<and> x = 0 then 255 else 0)"
    using b by (simp add: spot_frame_nth)
  have "(16 + y) * 64 + (16 + x) = 1040 \<longleftrightarrow> y = 0 \<and> x = 0"
    using b by (cases "y = 0") auto
  then have c: "spot_frame 1040 ! nat ((16 + y) * 64 + (16 + x)) = (if y = 0 \<and> x = 0 then 255 else 0)"
    using b by (simp add: spot_frame_nth)
  show "\<bar>uint (spot_frame 915 ! nat ((16 + - 2 + y) * 64 + (16 + 3 + x))) -
            uint (spot_frame 1040 ! nat ((16 + y) * 64 + (16 + x)))\<bar> = 0"
    by (simp only: p c diff_self abs_zero)
qed

lemma spot_cost_miss:
  assumes "mvy \<in> {-16..15}" "mvx \<in> {-16..15}" "\<not> (mvx = 3 \<and> mvy = - 2)"
  shows "255 \<le> sad (spot_frame 915) (spot_frame 1040) 64 (16 + mvx) (16 + mvy) 16 16"
proof -
  let ?d = "\<lambda>y x. \<bar>uint (spot_frame 915 ! nat ((16 + mvy + y) * 64 + (16 + mvx + x))) -
                     uint (spot_frame 1040 ! nat ((16 + y) * 64 + (16 + x)))\<bar>"
  have b: "-16 \<le> mvy" "mvy \<le> 15" "-16 \<le> mvx" "mvx \<le> 15"
    using assms by simp_all
  have "(16 + mvy + 0) * 64 + (16 + mvx + 0) \<noteq> 915"
    using b assms(3) by (cases "mvy \<le> - 3"; cases "mvy = - 2"; simp)
  then have p: "spot_frame 915 ! nat ((16 + mvy + 0) * 64 + (16 + mvx + 0)) = 0"
    using b by (simp add: spot_frame_nth)
  have c: "spot_frame 1040 ! nat ((16 + 0) * 64 + (16 + 0)) = 255"
    using spot_frame_nth [of 1040 1040] by simp
  have "?d 0 0 = 255"
    by (simp only: p c) simp
  moreover have "?d 0 0 \<le> (\<Sum>x\<leftarrow>[0..15]. ?d 0 x)"
    by (intro sum_list_member_le [where f = "?d 0"]) simp_all
  moreover have "(\<Sum>x\<leftarrow>[0..15]. ?d 0 x) \<le> (\<Sum>y\<leftarrow>[0..15]. \<Sum>x\<leftarrow>[0..15]. ?d y x)"
    by (rule sum_list_member_le [where f = "\<lambda>y. \<Sum>x\<leftarrow>[0..15]. ?d y x"])
      (auto intro!: sum_list_nonneg)
  ultimately show ?thesis
    unfolding sad_def by (simp add: add.assoc)
qed

lemma spot_frame_frame: "frame (spot_frame i) 64 64"
  by (simp add: frame_def spot_frame_def)

lemma match_unique_zero:
  assumes ok: "match_reads_ok posx posy prev cur width"
    and e: "ey \<in> {-16..15}" "ex \<in> {-16..15}"
    and hit: "cost_at prev cur width posx posy ex ey = 0"
    and only: "\<And>mvx mvy. mvy \<in> {-16..15} \<Longrightarrow> mvx \<in> {-16..15} \<Longrightarrow>
                 cost_at prev cur width posx posy mvx mvy = 0 \<Longrightarrow> mvx = ex \<and> mvy = ey"
  shows "match x y posx posy prev cur width = Some (0, ex, ey)"
proof -
  let ?cost = "cost_at prev cur width posx posy"
  from match_props [OF ok, of x y]
  obtain c dx dy where m: "match x y posx posy prev cur width = Some (c, dx, dy)"
    and range: "dx \<in> {-16..15}" "dy \<in> {-16..15}" and c: "c = ?cost dx dy"
    and least: "\<And>mvx mvy. mvy \<in> {-16..15} \<Longrightarrow> mvx \<in> {-16..15} \<Longrightarrow> c \<le> ?cost mvx mvy"
    by blast
  have "0 \<le> c"
    using sad_bounds [of prev cur width "posx + dx" "posy + dy" posx posy] c by (simp add: cost_at_def)
  moreover have "c \<le> 0"
    using least [OF e] hit by simp
  ultimately have c0: "c = 0" by simp
  then have "dx = ex \<and> dy = ey"
    using only [OF range(2) range(1)] c by simp
  with m c0 show ?thesis by simp
qed

lemma spot_match: "match x y 16 16 (spot_frame 915) (spot_frame 1040) 64 = Some (0, 3, - 2)"
proof (rule match_unique_zero [OF spot_reads_ok])
  show "- 2 \<in> {-16..15::int}" "3 \<in> {-16..15::int}" by simp_all
  show "cost_at (spot_frame 915) (spot_frame 1040) 64 16 16 3 (- 2) = 0"
    using spot_cost_hit by (simp add: cost_at_def)
  fix mvx mvy :: int
  assume r: "mvy \<in> {-16..15}" "mvx \<in> {-16..15}"
    and z: "cost_at (spot_frame 915) (spot_frame 1040) 64 16 16 mvx mvy = 0"
  show "mvx = 3 \<and> mvy = - 2"
  proof (rule ccontr)
    assume "\<not> (mvx = 3 \<and> mvy = - 2)"
    from spot_cost_miss [OF r this] z show False by (simp add: cost_at_def)
  qed
qed

section \<open>Block matching returns a minimal candidate\<close>

text \<open>
  C1. On a valid input (every read of every candidate is inside the buffers) \<open>match\<close>
  returns: a cost \<open>c\<close> and a displacement \<open>(dx, dy)\<close> with both components in
  \<open>[-16, 15]\<close>; \<open>c\<close> is what \<open>compute_sad\<close> gives for the candidate block of \<open>prev\<close>
  anchored at \<open>(posx + dx, posy + dy)\<close> against the block of \<open>cur\<close> anchored at
  \<open>(posx, posy)\<close>; each of the 1024 candidates has a cost, the sum of absolute differences
  at its anchor, and \<open>c\<close> is less than or equal to it; and when exactly one candidate
  has cost 0, that candidate is returned with cost 0.
\<close>

theorem match_minimal:
  assumes "match_reads_ok posx posy prev cur width"
  shows "\<exists>c dx dy. match x y posx posy prev cur width = Some (c, dx, dy) \<and>
           dx \<in> {-16..15} \<and> dy \<in> {-16..15} \<and>
           compute_sad prev cur width (posx + dx) (posy + dy) posx posy = Some c \<and>
           (\<forall>mvy\<in>{-16..15}. \<forall>mvx\<in>{-16..15}. \<exists>c'.
              compute_sad prev cur width (posx + mvx) (posy + mvy) posx posy = Some c' \<and>
              c' = sad prev cur width (posx + mvx) (posy + mvy) posx posy \<and> c \<le> c') \<and>
           (\<forall>ey\<in>{-16..15}. \<forall>ex\<in>{-16..15}.
              compute_sad prev cur width (posx + ex) (posy + ey) posx posy = Some 0 \<and>
              (\<forall>mvy\<in>{-16..15}. \<forall>mvx\<in>{-16..15}.
                 compute_sad prev cur width (posx + mvx) (posy + mvy) posx posy = Some 0
                 \<longrightarrow> mvx = ex \<and> mvy = ey)
              \<longrightarrow> c = 0 \<and> dx = ex \<and> dy = ey)"
proof -
  let ?cost = "cost_at prev cur width posx posy"
  from match_props [OF assms, of x y]
  obtain c dx dy where m: "match x y posx posy prev cur width = Some (c, dx, dy)"
    and range: "dx \<in> {-16..15}" "dy \<in> {-16..15}" and c: "c = ?cost dx dy"
    and least: "\<And>mvx mvy. mvy \<in> {-16..15} \<Longrightarrow> mvx \<in> {-16..15} \<Longrightarrow> c \<le> ?cost mvx mvy"
    by blast
  have cs: "compute_sad prev cur width (posx + mvx) (posy + mvy) posx posy = Some (?cost mvx mvy)"
    if "mvy \<in> {-16..15}" "mvx \<in> {-16..15}" for mvx mvy
    using assms that by (simp add: match_reads_ok_def compute_sad_eq cost_at_def)
  have nonneg: "0 \<le> c"
    using sad_bounds [of prev cur width "posx + dx" "posy + dy" posx posy] c by (simp add: cost_at_def)
  have uniq: "c = 0 \<and> dx = ex \<and> dy = ey"
    if e: "ey \<in> {-16..15}" "ex \<in> {-16..15}"
      and zero: "compute_sad prev cur width (posx + ex) (posy + ey) posx posy = Some 0"
      and only: "\<forall>mvy\<in>{-16..15}. \<forall>mvx\<in>{-16..15}.
                 compute_sad prev cur width (posx + mvx) (posy + mvy) posx posy = Some 0
                 \<longrightarrow> mvx = ex \<and> mvy = ey" for ex ey
  proof -
    have "?cost ex ey = 0" using cs [OF e] zero by simp
    then have "c \<le> 0" using least [OF e] by simp
    then have c0: "c = 0" using nonneg by simp
    then have "compute_sad prev cur width (posx + dx) (posy + dy) posx posy = Some 0"
      using cs [OF range(2) range(1)] c by simp
    then have "dx = ex \<and> dy = ey" using only range by blast
    with c0 show ?thesis by simp
  qed
  have "match x y posx posy prev cur width = Some (c, dx, dy) \<and>
           dx \<in> {-16..15} \<and> dy \<in> {-16..15} \<and>
           compute_sad prev cur width (posx + dx) (posy + dy) posx posy = Some c \<and>
           (\<forall>mvy\<in>{-16..15}. \<forall>mvx\<in>{-16..15}. \<exists>c'.
              compute_sad prev cur width (posx + mvx) (posy + mvy) posx posy = Some c' \<and>
              c' = sad prev cur width (posx + mvx) (posy + mvy) posx posy \<and> c \<le> c') \<and>
           (\<forall>ey\<in>{-16..15}. \<forall>ex\<in>{-16..15}.
              compute_sad prev cur width (posx + ex) (posy + ey) posx posy = Some 0 \<and>
              (\<forall>mvy\<in>{-16..15}. \<forall>mvx\<in>{-16..15}.
                 compute_sad prev cur width (posx + mvx) (posy + mvy) posx posy = Some 0
                 \<longrightarrow> mvx = ex \<and> mvy = ey)
              \<longrightarrow> c = 0 \<and> dx = ex \<and> dy = ey)"
  proof (intro conjI ballI impI)
    show "match x y posx posy prev cur width = Some (c, dx, dy)" by (rule m)
    show "dx \<in> {-16..15}" "dy \<in> {-16..15}" by (rule range)+
    show "compute_sad prev cur width (posx + dx) (posy + dy) posx posy = Some c"
      using cs [OF range(2) range(1)] c by simp
  next
    fix mvy mvx :: int
    assume r: "mvy \<in> {-16..15}" "mvx \<in> {-16..15}"
    show "\<exists>c'. compute_sad prev cur width (posx + mvx) (posy + mvy) posx posy = Some c' \<and>
              c' = sad prev cur width (posx + mvx) (posy + mvy) posx posy \<and> c \<le> c'"
      using cs [OF r] least [OF r] by (simp add: cost_at_def)
  next
    fix ey ex :: int
    assume e: "ey \<in> {-16..15}" "ex \<in> {-16..15}"
      and z: "compute_sad prev cur width (posx + ex) (posy + ey) posx posy = Some 0 \<and>
              (\<forall>mvy\<in>{-16..15}. \<forall>mvx\<in>{-16..15}.
                 compute_sad prev cur width (posx + mvx) (posy + mvy) posx posy = Some 0
                 \<longrightarrow> mvx = ex \<and> mvy = ey)"
    show "c = 0" "dx = ex" "dy = ey"
      using uniq [OF e] z by simp_all
  qed
  then show ?thesis by blast
qed

text \<open>
  An input with exactly one exact match: \<open>cur\<close> has its only bright pixel at the anchor
  \<open>(16, 16)\<close>, \<open>prev\<close> has it at \<open>(19, 14)\<close>, and the displacement found is \<open>(3, -2)\<close>.
\<close>

theorem match_minimal_witness:
  "match_reads_ok 16 16 (spot_frame 915) (spot_frame 1040) 64 \<and>
   match 0 0 16 16 (spot_frame 915) (spot_frame 1040) 64 = Some (0, 3, - 2)"
proof -
  let ?P = "spot_frame 915" and ?C = "spot_frame 1040"
  note ok = spot_reads_ok
  have cs: "compute_sad ?P ?C 64 (16 + mvx) (16 + mvy) 16 16 = Some (sad ?P ?C 64 (16 + mvx) (16 + mvy) 16 16)"
    if "mvy \<in> {-16..15}" "mvx \<in> {-16..15}" for mvx mvy
    using ok that by (simp add: match_reads_ok_def compute_sad_eq)
  have hit: "compute_sad ?P ?C 64 (16 + 3) (16 + - 2) 16 16 = Some 0"
    using cs [of "- 2" 3] spot_cost_hit by simp
  have only: "\<forall>mvy\<in>{-16..15}. \<forall>mvx\<in>{-16..15}.
      compute_sad ?P ?C 64 (16 + mvx) (16 + mvy) 16 16 = Some 0 \<longrightarrow> mvx = 3 \<and> mvy = - 2"
  proof (intro ballI impI)
    fix mvy mvx :: int
    assume r: "mvy \<in> {-16..15}" "mvx \<in> {-16..15}"
      and z: "compute_sad ?P ?C 64 (16 + mvx) (16 + mvy) 16 16 = Some 0"
    show "mvx = 3 \<and> mvy = - 2"
    proof (rule ccontr)
      assume "\<not> (mvx = 3 \<and> mvy = - 2)"
      from spot_cost_miss [OF r this] cs [OF r] z show False by simp
    qed
  qed
  from match_minimal [OF ok, of 0 0]
  obtain c dx dy where m: "match 0 0 16 16 ?P ?C 64 = Some (c, dx, dy)"
    and u: "\<forall>ey\<in>{-16..15}. \<forall>ex\<in>{-16..15}.
              compute_sad ?P ?C 64 (16 + ex) (16 + ey) 16 16 = Some 0 \<and>
              (\<forall>mvy\<in>{-16..15}. \<forall>mvx\<in>{-16..15}.
                 compute_sad ?P ?C 64 (16 + mvx) (16 + mvy) 16 16 = Some 0
                 \<longrightarrow> mvx = ex \<and> mvy = ey)
              \<longrightarrow> c = 0 \<and> dx = ex \<and> dy = ey"
    by blast
  have "c = 0 \<and> dx = 3 \<and> dy = - 2"
    using u [rule_format, of "- 2" 3] hit only by simp
  with m ok show ?thesis by simp
qed

section \<open>Ties go to the last candidate visited\<close>

text \<open>
  C2. On a valid input \<open>match\<close> is the scan of the candidates in raster order (\<open>mvy\<close>
  ascending outside, \<open>mvx\<close> ascending inside) in which a candidate replaces the running
  best when its cost is less than or equal to it. Hence the displacement returned has the
  minimal cost, and every candidate that ties with it comes before it in that order: its
  \<open>(mvy, mvx)\<close> is lexicographically less than or equal to the \<open>(dy, dx)\<close> returned.
\<close>

theorem match_last_tie:
  assumes "match_reads_ok posx posy prev cur width"
  shows "match x y posx posy prev cur width
           = Some (search_last_min (cost_at prev cur width posx posy) x y) \<and>
         (\<exists>c dx dy. match x y posx posy prev cur width = Some (c, dx, dy) \<and>
            dx \<in> {-16..15} \<and> dy \<in> {-16..15} \<and>
            c = sad prev cur width (posx + dx) (posy + dy) posx posy \<and>
            (\<forall>mvy\<in>{-16..15}. \<forall>mvx\<in>{-16..15}.
               c \<le> sad prev cur width (posx + mvx) (posy + mvy) posx posy \<and>
               (sad prev cur width (posx + mvx) (posy + mvy) posx posy = c
                \<longrightarrow> mvy < dy \<or> (mvy = dy \<and> mvx \<le> dx))))"
proof
  show "match x y posx posy prev cur width
          = Some (search_last_min (cost_at prev cur width posx posy) x y)"
    by (rule match_eq_fold [OF assms])
  show "\<exists>c dx dy. match x y posx posy prev cur width = Some (c, dx, dy) \<and>
            dx \<in> {-16..15} \<and> dy \<in> {-16..15} \<and>
            c = sad prev cur width (posx + dx) (posy + dy) posx posy \<and>
            (\<forall>mvy\<in>{-16..15}. \<forall>mvx\<in>{-16..15}.
               c \<le> sad prev cur width (posx + mvx) (posy + mvy) posx posy \<and>
               (sad prev cur width (posx + mvx) (posy + mvy) posx posy = c
                \<longrightarrow> mvy < dy \<or> (mvy = dy \<and> mvx \<le> dx)))"
    using match_props [OF assms, of x y] unfolding cost_at_def by blast
qed

lemma flat_cost:
  assumes "mvy \<in> {-16..15}" "mvx \<in> {-16..15}"
  shows "sad (flat_frame v) (flat_frame v) 64 (16 + mvx) (16 + mvy) 16 16 = 0"
  using flat_reads_ok [of v] assms unfolding flat_frame_def
  by (intro sad_constant) (simp add: match_reads_ok_def)

theorem match_last_tie_witness:
  "match_reads_ok 16 16 (flat_frame 7) (flat_frame 7) 64 \<and>
   match 0 0 16 16 (flat_frame 7) (flat_frame 7) 64 = Some (0, 15, 15)"
proof -
  let ?F = "flat_frame 7"
  note ok = flat_reads_ok [of 7]
  from match_last_tie [OF ok, of 0 0]
  obtain c dx dy where m: "match 0 0 16 16 ?F ?F 64 = Some (c, dx, dy)"
    and range: "dx \<in> {-16..15}" "dy \<in> {-16..15}"
    and c: "c = sad ?F ?F 64 (16 + dx) (16 + dy) 16 16"
    and tie: "\<forall>mvy\<in>{-16..15}. \<forall>mvx\<in>{-16..15}.
               c \<le> sad ?F ?F 64 (16 + mvx) (16 + mvy) 16 16 \<and>
               (sad ?F ?F 64 (16 + mvx) (16 + mvy) 16 16 = c
                \<longrightarrow> mvy < dy \<or> (mvy = dy \<and> mvx \<le> dx))"
    by blast
  have c0: "c = 0"
    using c flat_cost [OF range(2) range(1)] by simp
  have "sad ?F ?F 64 (16 + 15) (16 + 15) 16 16 = c"
    using flat_cost [of 15 15 7] c0 by simp
  then have "15 < dy \<or> (15 = dy \<and> 15 \<le> dx)"
    using tie [rule_format, of 15 15] by simp
  then have "dx = 15 \<and> dy = 15"
    using range by auto
  with m c0 ok show ?thesis by simp
qed

section \<open>The motion field\<close>

lemma full_search_eq_fold:
  assumes ok: "grid_reads_ok prev cur width height"
    and len: "c_div height 8 * c_div width 8 \<le> int (length mv)"
  shows "full_search mv prev cur width height x0 y0
           = Some (fst (fold (store_vector prev cur width (c_div width 8))
                          (List.product [2..c_div height 8 - 5] [2..c_div width 8 - 5]) (mv, x0, y0)))"
proof -
  let ?nx = "c_div width 8" and ?ny = "c_div height 8"
  let ?I = "\<lambda>s :: MVector list \<times> int \<times> int. length (fst s) = length mv"
  let ?body = "\<lambda>idy idx (mv, x, y). do {
             (min_sad, x', y') \<leftarrow> match x y (idx * 8) (idy * 8) prev cur width;
             e1 \<leftarrow> rd mv (idy * ?nx + idx);
             mv1 \<leftarrow> wr mv (idy * ?nx + idx) (e1\<lparr>mv_x := word_of_int x'\<rparr>);
             e2 \<leftarrow> rd mv1 (idy * ?nx + idx);
             mv2 \<leftarrow> wr mv1 (idy * ?nx + idx) (e2\<lparr>mv_y := word_of_int y'\<rparr>);
             Some (mv2, x', y') }"
  have step: "?body idy idx t = Some (store_vector prev cur width ?nx (idy, idx) t) \<and>
              ?I (store_vector prev cur width ?nx (idy, idx) t)"
    if "idy \<in> set [2..?ny - 5]" "idx \<in> set [2..?nx - 5]" "?I t" for idy idx t
  proof -
    obtain m x y where t: "t = (m, x, y)" by (cases t)
    have lm: "length m = length mv" using that(3) t by simp
    have "match_reads_ok (idx * 8) (idy * 8) prev cur width"
      using ok that by (simp add: grid_reads_ok_def)
    from match_props [OF this, of x y]
    obtain c dx dy where ma: "match x y (idx * 8) (idy * 8) prev cur width = Some (c, dx, dy)"
      and s: "(c, dx, dy) = search_last_min (cost_at prev cur width (idx * 8) (idy * 8)) 0 0"
      by blast
    have "in_buf mv (idy * ?nx + idx)"
      using that len by (intro cell_in_buf [where h = "?ny"]) simp_all
    then have ib: "in_buf m (idy * ?nx + idx)"
      using lm by (simp add: in_buf_def)
    have n: "nat (idy * ?nx + idx) < length m"
      using ib by (simp add: in_buf_def nat_less_iff)
    show ?thesis
      using ib lm n
      by (simp add: t ma s [symmetric] store_vector_def rd_in_buf wr_in_buf mvector_updates)
  qed
  have inner: "for_loop [2..?nx - 5] (?body idy) t
                 = Some (fold (\<lambda>idx. store_vector prev cur width ?nx (idy, idx)) [2..?nx - 5] t) \<and>
               ?I (fold (\<lambda>idx. store_vector prev cur width ?nx (idy, idx)) [2..?nx - 5] t)"
    if "idy \<in> set [2..?ny - 5]" "?I t" for idy t
    using that by (intro for_loop_fold [where I = ?I] step) simp_all
  have "for_loop [2..?ny - 5] (\<lambda>idy. for_loop [2..?nx - 5] (?body idy)) (mv, x0, y0)
        = Some (fold (\<lambda>idy. fold (\<lambda>idx. store_vector prev cur width ?nx (idy, idx)) [2..?nx - 5])
                  [2..?ny - 5] (mv, x0, y0)) \<and>
          ?I (fold (\<lambda>idy. fold (\<lambda>idx. store_vector prev cur width ?nx (idy, idx)) [2..?nx - 5])
                  [2..?ny - 5] (mv, x0, y0))"
    by (intro for_loop_fold [where I = ?I] inner) simp_all
  then show ?thesis
    by (simp add: full_search_def MSTEP_def fold_product Let_def)
qed

lemma store_vector_fst:
  "fst (store_vector prev cur width nx (idy, idx) (mv, x, y))
     = mv[nat (idy * nx + idx) := best_vector prev cur width (idx * 8) (idy * 8)]"
  by (simp add: store_vector_def best_vector_def split: prod.splits)

lemma fold_store_length:
  "length (fst (fold (store_vector prev cur width nx) cells s)) = length (fst s)"
proof (induction cells arbitrary: s)
  case Nil
  show ?case by simp
next
  case (Cons k cells)
  obtain idy idx where k: "k = (idy, idx)" by (cases k)
  obtain mv x y where s: "s = (mv, x, y)" by (cases s)
  show ?case
    using Cons [of "store_vector prev cur width nx k s"] by (simp add: k s store_vector_fst)
qed

lemma fold_store_other:
  assumes "\<forall>(idy, idx)\<in>set cells. nat (idy * nx + idx) \<noteq> i"
  shows "fst (fold (store_vector prev cur width nx) cells s) ! i = fst s ! i"
  using assms
proof (induction cells arbitrary: s)
  case Nil
  show ?case by simp
next
  case (Cons k cells)
  obtain idy idx where k: "k = (idy, idx)" by (cases k)
  obtain mv x y where s: "s = (mv, x, y)" by (cases s)
  have "fst (fold (store_vector prev cur width nx) cells (store_vector prev cur width nx k s)) ! i
          = fst (store_vector prev cur width nx k s) ! i"
    using Cons.prems by (intro Cons.IH) simp
  also have "\<dots> = fst s ! i"
    using Cons.prems by (simp add: k s store_vector_fst)
  finally show ?case by simp
qed

lemma fold_store_cell:
  assumes "inj_on (\<lambda>(idy, idx). nat (idy * nx + idx)) (set cells)"
    and "(idy, idx) \<in> set cells" and "nat (idy * nx + idx) < length (fst s)"
  shows "fst (fold (store_vector prev cur width nx) cells s) ! nat (idy * nx + idx)
           = best_vector prev cur width (idx * 8) (idy * 8)"
  using assms
proof (induction cells arbitrary: s)
  case Nil
  then show ?case by simp
next
  case (Cons k cells)
  obtain ky kx where k: "k = (ky, kx)" by (cases k)
  obtain mv x y where s: "s = (mv, x, y)" by (cases s)
  let ?s' = "store_vector prev cur width nx k s"
  have inj: "inj_on (\<lambda>(idy, idx). nat (idy * nx + idx)) (set cells)"
    using Cons.prems(1) by (simp add: inj_on_def)
  have len: "nat (idy * nx + idx) < length (fst ?s')"
    using Cons.prems(3) by (simp add: k s store_vector_fst)
  show ?case
  proof (cases "(idy, idx) \<in> set cells")
    case True
    from Cons.IH [OF inj True len] show ?thesis by simp
  next
    case False
    then have here: "k = (idy, idx)" using Cons.prems(2) by simp
    have "\<forall>(ky', kx')\<in>set cells. nat (ky' * nx + kx') \<noteq> nat (idy * nx + idx)"
    proof (clarify)
      fix ky' kx'
      assume mem: "(ky', kx') \<in> set cells" and eq: "nat (ky' * nx + kx') = nat (idy * nx + idx)"
      have "(ky', kx') = (idy, idx)"
        using Cons.prems(1) mem eq here by (auto simp: inj_on_def)
      with mem False show False by simp
    qed
    then have "fst (fold (store_vector prev cur width nx) cells ?s') ! nat (idy * nx + idx)
                 = fst ?s' ! nat (idy * nx + idx)"
      by (rule fold_store_other)
    also have "\<dots> = best_vector prev cur width (idx * 8) (idy * 8)"
      using Cons.prems(3) here k by (simp add: s store_vector_fst)
    finally show ?thesis by simp
  qed
qed

lemma fold_store_set:
  "set (fst (fold (store_vector prev cur width nx) cells s))
     \<subseteq> set (fst s) \<union> (\<lambda>(idy, idx). best_vector prev cur width (idx * 8) (idy * 8)) ` set cells"
proof (induction cells arbitrary: s)
  case Nil
  show ?case by simp
next
  case (Cons k cells)
  obtain ky kx where k: "k = (ky, kx)" by (cases k)
  obtain mv x y where s: "s = (mv, x, y)" by (cases s)
  have "set (fst (store_vector prev cur width nx k s))
          \<subseteq> insert (best_vector prev cur width (kx * 8) (ky * 8)) (set (fst s))"
    by (simp add: k s store_vector_fst set_update_subset_insert)
  with Cons [of "store_vector prev cur width nx k s"] show ?case
    by (auto simp: k)
qed

lemma frame_grid_reads_ok:
  assumes "frame prev width height" "frame cur width height"
  shows "grid_reads_ok prev cur width height"
  unfolding grid_reads_ok_def
proof (intro ballI)
  fix idy idx :: int
  assume "idy \<in> {2..c_div height 8 - 5}" "idx \<in> {2..c_div width 8 - 5}"
  then have b: "2 \<le> idy" "idy \<le> height div 8 - 5" "2 \<le> idx" "idx \<le> width div 8 - 5"
    using assms by (simp_all add: frame_def c_div_nonneg)
  have w: "0 \<le> width" and len: "int (length prev) = width * height" "int (length cur) = width * height"
    using assms by (simp_all add: frame_def)
  have "idy * 8 + 31 \<le> height"
    using b by simp
  then have "(idy * 8 + 31) * width \<le> height * width"
    using w by (rule mult_right_mono)
  then show "match_reads_ok (idx * 8) (idy * 8) prev cur width"
    using b len by (intro match_reads_ok_window) (simp_all add: mult.commute)
qed

lemma zero_field_length:
  assumes "frame img width height"
  shows "int (length (zero_field width height)) = c_div width 8 * c_div height 8"
proof -
  have "0 \<le> width div 8" "0 \<le> height div 8"
    using assms by (simp_all add: frame_def pos_imp_zdiv_nonneg_iff)
  then show ?thesis
    using assms by (simp add: zero_field_def MSTEP_def frame_def c_div_nonneg)
qed

lemma estimateMotion_eq_fold:
  assumes "frame prev width height" "frame cur width height"
  shows "estimateMotion prev cur width height x0 y0
           = Some (fst (fold (store_vector prev cur width (c_div width 8))
                          (List.product [2..c_div height 8 - 5] [2..c_div width 8 - 5])
                          (zero_field width height, x0, y0)))"
  unfolding estimateMotion_def
  using zero_field_length [OF assms(1)]
  by (intro full_search_eq_fold frame_grid_reads_ok assms) (simp add: mult.commute)

lemma best_vector_match:
  assumes "match_reads_ok posx posy prev cur width"
  shows "\<exists>c dx dy. (\<forall>x y. match x y posx posy prev cur width = Some (c, dx, dy)) \<and>
           dx \<in> {-16..15} \<and> dy \<in> {-16..15} \<and>
           best_vector prev cur width posx posy = \<lparr>mv_x = word_of_int dx, mv_y = word_of_int dy\<rparr>"
proof -
  obtain c dx dy where s: "search_last_min (cost_at prev cur width posx posy) 0 0 = (c, dx, dy)"
    by (cases "search_last_min (cost_at prev cur width posx posy) 0 0")
  have "match x y posx posy prev cur width = Some (c, dx, dy)" for x y
    using match_props [OF assms, of x y] s by auto
  moreover have "dx \<in> {-16..15} \<and> dy \<in> {-16..15}"
    using search_last_min_props [OF cost_at_bound s] by simp
  moreover have "best_vector prev cur width posx posy = \<lparr>mv_x = word_of_int dx, mv_y = word_of_int dy\<rparr>"
    by (simp add: best_vector_def s)
  ultimately show ?thesis by blast
qed

lemma full_search_small:
  assumes "c_div width MSTEP \<le> 6 \<or> c_div height MSTEP \<le> 6"
  shows "full_search mv prev cur width height x0 y0 = Some mv"
  using assms by (auto simp: full_search_def Let_def for_loop_inner_empty)

lemma estimateMotion_field:
  assumes fr: "frame prev width height" "frame cur width height"
    and nx: "nx = c_div width MSTEP" and ny: "ny = c_div height MSTEP"
  shows "\<exists>field. estimateMotion prev cur width height x0 y0 = Some field \<and>
           int (length field) = nx * ny \<and>
           (\<forall>idy idx. 2 \<le> idx \<and> idx \<le> nx - 5 \<and> 2 \<le> idy \<and> idy \<le> ny - 5 \<longrightarrow>
              match_reads_ok (idx * MSTEP) (idy * MSTEP) prev cur width \<and>
              field ! nat (idy * nx + idx) = best_vector prev cur width (idx * MSTEP) (idy * MSTEP)) \<and>
           (\<forall>idy idx. 0 \<le> idx \<and> idx < nx \<and> 0 \<le> idy \<and> idy < ny \<and>
              (idx < 2 \<or> idy < 2 \<or> nx - 4 \<le> idx \<or> ny - 4 \<le> idy) \<longrightarrow>
              field ! nat (idy * nx + idx) = zero_vector) \<and>
           (\<forall>v\<in>set field. v = zero_vector \<or>
              (\<exists>idy\<in>{2..ny - 5}. \<exists>idx\<in>{2..nx - 5}.
                 v = best_vector prev cur width (idx * MSTEP) (idy * MSTEP)))"
proof -
  let ?cells = "List.product [2..ny - 5] [2..nx - 5]"
  let ?ix = "\<lambda>(idy, idx). nat (idy * nx + idx)"
  define field where "field = fst (fold (store_vector prev cur width nx) ?cells (zero_field width height, x0, y0))"
  have nx8: "nx = c_div width 8" and ny8: "ny = c_div height 8"
    using nx ny by (simp_all add: MSTEP_def)
  have est: "estimateMotion prev cur width height x0 y0 = Some field"
    using estimateMotion_eq_fold [OF fr, of x0 y0] by (simp add: field_def nx8 ny8)
  have len0: "int (length (zero_field width height)) = nx * ny"
    using zero_field_length [OF fr(1)] by (simp add: nx8 ny8)
  have len: "int (length field) = nx * ny"
    by (simp add: field_def fold_store_length len0)
  have inj: "inj_on ?ix (set ?cells)"
  proof (rule inj_onI)
    fix p q
    assume pq: "p \<in> set ?cells" "q \<in> set ?cells" and eq: "?ix p = ?ix q"
    obtain ay ax ky kx where p: "p = (ay, ax)" and q: "q = (ky, kx)"
      by (cases p, cases q) blast
    have "0 \<le> ay * nx + ax" "0 \<le> ky * nx + kx"
      using pq by (simp_all add: p q)
    then have "ay * nx + ax = ky * nx + kx"
      using eq by (simp add: p q)
    then have "ay = ky \<and> ax = kx"
      using pq by (intro grid_index_inj [where w = nx]) (simp_all add: p q)
    then show "p = q" by (simp add: p q)
  qed
  have computed: "match_reads_ok (idx * MSTEP) (idy * MSTEP) prev cur width \<and>
        field ! nat (idy * nx + idx) = best_vector prev cur width (idx * MSTEP) (idy * MSTEP)"
    if r: "2 \<le> idx \<and> idx \<le> nx - 5 \<and> 2 \<le> idy \<and> idy \<le> ny - 5" for idx idy
  proof -
    have mem: "(idy, idx) \<in> set ?cells" using r by simp
    have "in_buf (zero_field width height) (idy * nx + idx)"
      using r len0 by (intro cell_in_buf [where h = ny]) (simp_all add: mult.commute)
    then have "nat (idy * nx + idx) < length (fst (zero_field width height, x0, y0))"
      by (simp add: in_buf_def nat_less_iff)
    from fold_store_cell [OF inj mem this]
    have "field ! nat (idy * nx + idx) = best_vector prev cur width (idx * 8) (idy * 8)"
      by (simp add: field_def)
    moreover have "match_reads_ok (idx * 8) (idy * 8) prev cur width"
      using frame_grid_reads_ok [OF fr] r by (simp add: grid_reads_ok_def nx8 ny8)
    ultimately show ?thesis by (simp add: MSTEP_def)
  qed
  have margin: "field ! nat (idy * nx + idx) = zero_vector"
    if g: "0 \<le> idx \<and> idx < nx \<and> 0 \<le> idy \<and> idy < ny \<and>
           (idx < 2 \<or> idy < 2 \<or> nx - 4 \<le> idx \<or> ny - 4 \<le> idy)" for idx idy
  proof -
    have other: "\<forall>(ky, kx)\<in>set ?cells. nat (ky * nx + kx) \<noteq> nat (idy * nx + idx)"
    proof (clarify)
      fix ky kx
      assume k: "(ky, kx) \<in> set ?cells" and eq: "nat (ky * nx + kx) = nat (idy * nx + idx)"
      have "0 \<le> ky * nx + kx" "0 \<le> idy * nx + idx"
        using k g by simp_all
      then have "ky * nx + kx = idy * nx + idx"
        using eq by simp
      then have "ky = idy \<and> kx = idx"
        using k g by (intro grid_index_inj [where w = nx]) simp_all
      with k g show False by auto
    qed
    have "in_buf (zero_field width height) (idy * nx + idx)"
      using g len0 by (intro cell_in_buf [where h = ny]) (simp_all add: mult.commute)
    then have "nat (idy * nx + idx) < length (zero_field width height)"
      by (simp add: in_buf_def nat_less_iff)
    then have "zero_field width height ! nat (idy * nx + idx) = zero_vector"
      by (simp add: zero_field_def)
    with fold_store_other [OF other] show ?thesis
      by (simp add: field_def)
  qed
  have entries: "v = zero_vector \<or>
      (\<exists>idy\<in>{2..ny - 5}. \<exists>idx\<in>{2..nx - 5}. v = best_vector prev cur width (idx * MSTEP) (idy * MSTEP))"
    if "v \<in> set field" for v
  proof -
    from that fold_store_set [of prev cur width nx ?cells "(zero_field width height, x0, y0)"]
    have "v \<in> set (zero_field width height) \<or>
          v \<in> (\<lambda>(idy, idx). best_vector prev cur width (idx * 8) (idy * 8)) ` set ?cells"
      by (auto simp: field_def)
    then show ?thesis
    proof
      assume "v \<in> set (zero_field width height)"
      then show ?thesis by (simp add: zero_field_def)
    next
      assume "v \<in> (\<lambda>(idy, idx). best_vector prev cur width (idx * 8) (idy * 8)) ` set ?cells"
      then show ?thesis by (auto simp: MSTEP_def)
    qed
  qed
  from est len computed margin entries show ?thesis by blast
qed

section \<open>Which cells of the field are computed\<close>

text \<open>
  C3. For two frames of \<open>width * height\<close> pixels and the zero-initialised field of
  \<open>nx * ny\<close> entries, \<open>nx = width / MSTEP\<close> and \<open>ny = height / MSTEP\<close>, the estimation
  returns a field of \<open>nx * ny\<close> entries in which: the entry at \<open>idy * nx + idx\<close> of every
  cell with \<open>idx\<close> in \<open>[2, nx - 5]\<close> and \<open>idy\<close> in \<open>[2, ny - 5]\<close> is the displacement that
  \<open>match\<close> returns for the anchor \<open>(idx * MSTEP, idy * MSTEP)\<close>; and the entry of every cell
  with \<open>idx < 2\<close>, \<open>idy < 2\<close>, \<open>idx \<ge> nx - 4\<close> or \<open>idy \<ge> ny - 4\<close> is the zero vector.
\<close>

theorem estimateMotion_grid:
  assumes "frame prev width height" "frame cur width height"
    and "nx = c_div width MSTEP" "ny = c_div height MSTEP"
  shows "\<exists>field. estimateMotion prev cur width height x0 y0 = Some field \<and>
           int (length field) = nx * ny \<and>
           (\<forall>idy\<in>{0..ny - 1}. \<forall>idx\<in>{0..nx - 1}.
              (2 \<le> idx \<and> idx \<le> nx - 5 \<and> 2 \<le> idy \<and> idy \<le> ny - 5 \<longrightarrow>
                 (\<exists>c dx dy.
                    (\<forall>x y. match x y (idx * MSTEP) (idy * MSTEP) prev cur width = Some (c, dx, dy)) \<and>
                    field ! nat (idy * nx + idx) = \<lparr>mv_x = word_of_int dx, mv_y = word_of_int dy\<rparr>)) \<and>
              (idx < 2 \<or> idy < 2 \<or> nx - 4 \<le> idx \<or> ny - 4 \<le> idy \<longrightarrow>
                 field ! nat (idy * nx + idx) = zero_vector))"
proof -
  from estimateMotion_field [OF assms, of x0 y0]
  obtain field where est: "estimateMotion prev cur width height x0 y0 = Some field"
    and len: "int (length field) = nx * ny"
    and computed: "\<And>idy idx. 2 \<le> idx \<and> idx \<le> nx - 5 \<and> 2 \<le> idy \<and> idy \<le> ny - 5 \<Longrightarrow>
              match_reads_ok (idx * MSTEP) (idy * MSTEP) prev cur width \<and>
              field ! nat (idy * nx + idx) = best_vector prev cur width (idx * MSTEP) (idy * MSTEP)"
    and margin: "\<And>idy idx. 0 \<le> idx \<and> idx < nx \<and> 0 \<le> idy \<and> idy < ny \<and>
              (idx < 2 \<or> idy < 2 \<or> nx - 4 \<le> idx \<or> ny - 4 \<le> idy) \<Longrightarrow>
              field ! nat (idy * nx + idx) = zero_vector"
    by blast
  have "(2 \<le> idx \<and> idx \<le> nx - 5 \<and> 2 \<le> idy \<and> idy \<le> ny - 5 \<longrightarrow>
           (\<exists>c dx dy.
              (\<forall>x y. match x y (idx * MSTEP) (idy * MSTEP) prev cur width = Some (c, dx, dy)) \<and>
              field ! nat (idy * nx + idx) = \<lparr>mv_x = word_of_int dx, mv_y = word_of_int dy\<rparr>)) \<and>
        (idx < 2 \<or> idy < 2 \<or> nx - 4 \<le> idx \<or> ny - 4 \<le> idy \<longrightarrow>
           field ! nat (idy * nx + idx) = zero_vector)"
    if g: "idy \<in> {0..ny - 1}" "idx \<in> {0..nx - 1}" for idy idx
  proof (intro conjI impI)
    assume r: "2 \<le> idx \<and> idx \<le> nx - 5 \<and> 2 \<le> idy \<and> idy \<le> ny - 5"
    from computed [OF r] best_vector_match [of "idx * MSTEP" "idy * MSTEP" prev cur width]
    show "\<exists>c dx dy.
              (\<forall>x y. match x y (idx * MSTEP) (idy * MSTEP) prev cur width = Some (c, dx, dy)) \<and>
              field ! nat (idy * nx + idx) = \<lparr>mv_x = word_of_int dx, mv_y = word_of_int dy\<rparr>"
      by metis
  next
    assume "idx < 2 \<or> idy < 2 \<or> nx - 4 \<le> idx \<or> ny - 4 \<le> idy"
    then show "field ! nat (idy * nx + idx) = zero_vector"
      using g by (intro margin) simp
  qed
  with est len show ?thesis by blast
qed

theorem estimateMotion_grid_witness:
  "frame (flat_frame 7) 64 64 \<and> 8 = c_div 64 MSTEP \<and>
   (\<exists>field. estimateMotion (flat_frame 7) (flat_frame 7) 64 64 0 0 = Some field \<and>
      int (length field) = 64 \<and>
      field ! 18 = \<lparr>mv_x = 15, mv_y = 15\<rparr> \<and> field ! 0 = zero_vector \<and> field ! 36 = zero_vector)"
proof -
  let ?F = "flat_frame 7"
  have n: "8 = c_div 64 MSTEP"
    by (simp add: c_div_def MSTEP_def)
  from estimateMotion_grid [OF flat_frame_frame flat_frame_frame n n, of 7 7 0 0]
  obtain field where est: "estimateMotion ?F ?F 64 64 0 0 = Some field"
    and len: "int (length field) = 8 * 8"
    and cells: "\<forall>idy\<in>{0..8 - 1}. \<forall>idx\<in>{0..8 - 1}.
              (2 \<le> idx \<and> idx \<le> 8 - 5 \<and> 2 \<le> idy \<and> idy \<le> 8 - 5 \<longrightarrow>
                 (\<exists>c dx dy.
                    (\<forall>x y. match x y (idx * MSTEP) (idy * MSTEP) ?F ?F 64 = Some (c, dx, dy)) \<and>
                    field ! nat (idy * 8 + idx) = \<lparr>mv_x = word_of_int dx, mv_y = word_of_int dy\<rparr>)) \<and>
              (idx < 2 \<or> idy < 2 \<or> 8 - 4 \<le> idx \<or> 8 - 4 \<le> idy \<longrightarrow>
                 field ! nat (idy * 8 + idx) = zero_vector)"
    by blast
  from cells [rule_format, of 2 2]
  obtain c dx dy where m: "\<And>x y. match x y (2 * MSTEP) (2 * MSTEP) ?F ?F 64 = Some (c, dx, dy)"
    and f: "field ! nat (2 * 8 + 2) = \<lparr>mv_x = word_of_int dx, mv_y = word_of_int dy\<rparr>"
    by auto
  have "match 0 0 (2 * MSTEP) (2 * MSTEP) ?F ?F 64 = Some (0, 15, 15)"
    using match_flat [OF flat_reads_ok [of 7 , unfolded flat_frame_def], of 0 0]
    by (simp add: MSTEP_def flat_frame_def)
  with m [of 0 0] have "dx = 15 \<and> dy = 15" by simp
  with f have c18: "field ! 18 = \<lparr>mv_x = 15, mv_y = 15\<rparr>" by simp
  have c0: "field ! 0 = zero_vector"
    using cells [rule_format, of 0 0] by simp
  have c36: "field ! 36 = zero_vector"
    using cells [rule_format, of 4 4] by simp
  from est len c18 c0 c36 n flat_frame_frame [of 7] show ?thesis by simp
qed

section \<open>The components of the stored vectors\<close>

text \<open>
  C9. For two frames of \<open>width * height\<close> pixels, every entry of the field that the
  estimation returns has both components, read as signed 8-bit values, in \<open>[-16, 15]\<close>;
  and at every computed cell the two components read back are exactly the displacement
  that \<open>match\<close> returned, which lies in \<open>[-16, 15]\<close>: the store into \<open>int8\<close> truncates
  nothing.
\<close>

theorem estimateMotion_components:
  assumes "frame prev width height" "frame cur width height"
    and "nx = c_div width MSTEP" "ny = c_div height MSTEP"
  shows "\<exists>field. estimateMotion prev cur width height x0 y0 = Some field \<and>
           (\<forall>v\<in>set field. - 16 \<le> sint (mv_x v) \<and> sint (mv_x v) \<le> 15 \<and>
                           - 16 \<le> sint (mv_y v) \<and> sint (mv_y v) \<le> 15) \<and>
           (\<forall>idy\<in>{2..ny - 5}. \<forall>idx\<in>{2..nx - 5}. \<exists>c dx dy.
              match x0 y0 (idx * MSTEP) (idy * MSTEP) prev cur width = Some (c, dx, dy) \<and>
              - 16 \<le> dx \<and> dx \<le> 15 \<and> - 16 \<le> dy \<and> dy \<le> 15 \<and>
              sint (mv_x (field ! nat (idy * nx + idx))) = dx \<and>
              sint (mv_y (field ! nat (idy * nx + idx))) = dy)"
proof -
  from estimateMotion_field [OF assms, of x0 y0]
  obtain field where est: "estimateMotion prev cur width height x0 y0 = Some field"
    and computed: "\<And>idy idx. 2 \<le> idx \<and> idx \<le> nx - 5 \<and> 2 \<le> idy \<and> idy \<le> ny - 5 \<Longrightarrow>
              match_reads_ok (idx * MSTEP) (idy * MSTEP) prev cur width \<and>
              field ! nat (idy * nx + idx) = best_vector prev cur width (idx * MSTEP) (idy * MSTEP)"
    and entries: "\<And>v. v \<in> set field \<Longrightarrow> v = zero_vector \<or>
              (\<exists>idy\<in>{2..ny - 5}. \<exists>idx\<in>{2..nx - 5}.
                 v = best_vector prev cur width (idx * MSTEP) (idy * MSTEP))"
    by blast
  have cell: "\<exists>c dx dy.
        match x0 y0 (idx * MSTEP) (idy * MSTEP) prev cur width = Some (c, dx, dy) \<and>
        - 16 \<le> dx \<and> dx \<le> 15 \<and> - 16 \<le> dy \<and> dy \<le> 15 \<and>
        sint (mv_x (best_vector prev cur width (idx * MSTEP) (idy * MSTEP))) = dx \<and>
        sint (mv_y (best_vector prev cur width (idx * MSTEP) (idy * MSTEP))) = dy"
    if r: "idy \<in> {2..ny - 5}" "idx \<in> {2..nx - 5}" for idy idx
  proof -
    have "match_reads_ok (idx * MSTEP) (idy * MSTEP) prev cur width"
      using computed [of idx idy] r by simp
    from best_vector_match [OF this]
    obtain c dx dy where m: "\<And>x y. match x y (idx * MSTEP) (idy * MSTEP) prev cur width = Some (c, dx, dy)"
      and d: "dx \<in> {-16..15}" "dy \<in> {-16..15}"
      and b: "best_vector prev cur width (idx * MSTEP) (idy * MSTEP)
                = \<lparr>mv_x = word_of_int dx, mv_y = word_of_int dy\<rparr>"
      by blast
    have "sint (word_of_int dx :: int8) = dx" "sint (word_of_int dy :: int8) = dy"
      using d by (simp_all add: sint_small)
    with m d b show ?thesis by simp
  qed
  have all: "- 16 \<le> sint (mv_x v) \<and> sint (mv_x v) \<le> 15 \<and> - 16 \<le> sint (mv_y v) \<and> sint (mv_y v) \<le> 15"
    if "v \<in> set field" for v
    using entries [OF that]
  proof
    assume "v = zero_vector"
    then show ?thesis by (simp add: zero_vector_def)
  next
    assume "\<exists>idy\<in>{2..ny - 5}. \<exists>idx\<in>{2..nx - 5}.
              v = best_vector prev cur width (idx * MSTEP) (idy * MSTEP)"
    then obtain idy idx where r: "idy \<in> {2..ny - 5}" "idx \<in> {2..nx - 5}"
      and v: "v = best_vector prev cur width (idx * MSTEP) (idy * MSTEP)"
      by blast
    from cell [OF r] show ?thesis by (auto simp: v)
  qed
  have "\<exists>c dx dy.
        match x0 y0 (idx * MSTEP) (idy * MSTEP) prev cur width = Some (c, dx, dy) \<and>
        - 16 \<le> dx \<and> dx \<le> 15 \<and> - 16 \<le> dy \<and> dy \<le> 15 \<and>
        sint (mv_x (field ! nat (idy * nx + idx))) = dx \<and>
        sint (mv_y (field ! nat (idy * nx + idx))) = dy"
    if r: "idy \<in> {2..ny - 5}" "idx \<in> {2..nx - 5}" for idy idx
    using cell [OF r] computed [of idx idy] r by simp
  with est all show ?thesis by blast
qed

theorem estimateMotion_components_witness:
  "frame (spot_frame 915) 64 64 \<and> frame (spot_frame 1040) 64 64 \<and> 8 = c_div 64 MSTEP \<and>
   (\<exists>field. estimateMotion (spot_frame 915) (spot_frame 1040) 64 64 0 0 = Some field \<and>
      sint (mv_x (field ! 18)) = 3 \<and> sint (mv_y (field ! 18)) = - 2)"
proof -
  let ?P = "spot_frame 915" and ?C = "spot_frame 1040"
  have n: "8 = c_div 64 MSTEP"
    by (simp add: c_div_def MSTEP_def)
  from estimateMotion_components [OF spot_frame_frame spot_frame_frame n n, of 915 1040 0 0]
  obtain field where est: "estimateMotion ?P ?C 64 64 0 0 = Some field"
    and cells: "\<forall>idy\<in>{2..8 - 5}. \<forall>idx\<in>{2..8 - 5}. \<exists>c dx dy.
              match 0 0 (idx * MSTEP) (idy * MSTEP) ?P ?C 64 = Some (c, dx, dy) \<and>
              - 16 \<le> dx \<and> dx \<le> 15 \<and> - 16 \<le> dy \<and> dy \<le> 15 \<and>
              sint (mv_x (field ! nat (idy * 8 + idx))) = dx \<and>
              sint (mv_y (field ! nat (idy * 8 + idx))) = dy"
    by blast
  from cells [rule_format, of 2 2]
  obtain c dx dy where m: "match 0 0 (2 * MSTEP) (2 * MSTEP) ?P ?C 64 = Some (c, dx, dy)"
    and f: "sint (mv_x (field ! nat (2 * 8 + 2))) = dx" "sint (mv_y (field ! nat (2 * 8 + 2))) = dy"
    by auto
  have "dx = 3 \<and> dy = - 2"
    using m spot_match [of 0 0] by (simp add: MSTEP_def)
  with f have "sint (mv_x (field ! 18)) = 3 \<and> sint (mv_y (field ! 18)) = - 2" by simp
  with est n spot_frame_frame [of 915] spot_frame_frame [of 1040] show ?thesis by simp
qed

section \<open>Frames too small for any block\<close>

text \<open>
  C10. When \<open>width / MSTEP \<le> 6\<close> or \<open>height / MSTEP \<le> 6\<close>, as for every frame narrower
  or shorter than 56 pixels, \<open>full_search\<close> returns the field it was given, whatever the
  two buffers are (no pixel is read, so no block is matched), and the field of the
  estimation is the zero-initialised one: every entry is the zero vector.
\<close>

theorem estimateMotion_small:
  assumes "c_div width MSTEP \<le> 6 \<or> c_div height MSTEP \<le> 6 \<or> width < 56 \<or> height < 56"
  shows "full_search mv prev cur width height x0 y0 = Some mv \<and>
         estimateMotion prev cur width height x0 y0 = Some (zero_field width height) \<and>
         (\<forall>v\<in>set (zero_field width height). v = zero_vector)"
proof -
  have "c_div a 8 \<le> 6" if "a < 56" for a :: int
  proof (cases "0 \<le> a")
    case True
    then show ?thesis using that by (simp add: c_div_nonneg)
  next
    case False
    then have "c_div a 8 \<le> 0"
      by (simp add: c_div_def sgn_if)
    then show ?thesis by simp
  qed
  then have small: "c_div width MSTEP \<le> 6 \<or> c_div height MSTEP \<le> 6"
    using assms by (auto simp: MSTEP_def)
  show ?thesis
    using full_search_small [OF small] by (auto simp: estimateMotion_def zero_field_def)
qed

theorem estimateMotion_small_witness:
  "c_div 48 MSTEP \<le> 6 \<and>
   full_search (zero_field 48 480) [] [] 48 480 0 0 = Some (zero_field 48 480) \<and>
   estimateMotion [] [] 48 480 0 0 = Some (replicate 360 zero_vector)"
proof -
  have small: "c_div 48 MSTEP \<le> 6"
    by (simp add: c_div_def MSTEP_def)
  then have "c_div 48 MSTEP \<le> 6 \<or> c_div 480 MSTEP \<le> 6 \<or> (48::int) < 56 \<or> (480::int) < 56"
    by simp
  from estimateMotion_small [OF this, of "zero_field 48 480" "[]" "[]" 0 0]
  have "full_search (zero_field 48 480) [] [] 48 480 0 0 = Some (zero_field 48 480)"
    and "estimateMotion [] [] 48 480 0 0 = Some (zero_field 48 480)"
    by simp_all
  moreover have "zero_field 48 480 = replicate 360 zero_vector"
    by (simp add: zero_field_def c_div_def MSTEP_def)
  ultimately show ?thesis using small by simp
qed

section \<open>Two identical constant frames\<close>

lemma fold_fixed:
  assumes "\<And>k. k \<in> set ks \<Longrightarrow> f k s = s"
  shows "fold f ks s = s"
  using assms by (induction ks) simp_all

lemma replicate_update_same: "(replicate n v)[i := v] = replicate n v"
  by (cases "i < n") (simp_all add: list_update_same_conv list_update_beyond)

lemma medianFilter_flat:
  assumes "height * width \<le> int n"
  shows "medianFilter (replicate n v) width height = replicate n v"
  unfolding medianFilter_def
proof (rule fold_fixed)
  fix k
  assume k: "k \<in> set (List.product [1..height - 2] [1..width - 2])"
  obtain row col where rc: "k = (row, col)" by (cases k)
  have b: "1 \<le> row" "row \<le> height - 2" "1 \<le> col" "col \<le> width - 2"
    using k by (simp_all add: rc)
  have "in_buf (replicate n v) ((row + y) * width + (col + x))" if "y \<in> {-1..1}" "x \<in> {-1..1}" for y x
    using that b assms by (intro cell_in_buf [where h = height]) simp_all
  then have at: "replicate n v ! nat ((row + y) * width + (col + x)) = v" if "y \<in> {-1..1}" "x \<in> {-1..1}" for y x
    using that by (simp add: in_buf_def nat_less_iff)
  have m: "- 1 \<in> {-1..1::int}" and z: "0 \<in> {-1..1::int}" and o: "1 \<in> {-1..1::int}"
    by simp_all
  note ats = at [OF m m, simplified] at [OF m z, simplified] at [OF m o, simplified]
    at [OF z m, simplified] at [OF z z, simplified] at [OF z o, simplified]
    at [OF o m, simplified] at [OF o z, simplified] at [OF o o, simplified]
  have "neighbourhood (replicate n v) width row col = replicate 9 v"
    by (simp add: neighbourhood_def upto_m1_1 numeral_eq_Suc ats)
  then have "sort (neighbourhood (replicate n v) width row col) ! 4 = v"
    by (simp add: sorted_sort_id)
  then show "medianFilter_step width k (replicate n v) = replicate n v"
    by (simp add: rc medianFilter_step_def replicate_update_same)
qed

lemma search_flat:
  assumes ok: "match_reads_ok posx posy (replicate n v) (replicate m v) width"
  shows "search_last_min (cost_at (replicate n v) (replicate m v) width posx posy) 0 0 = (0, 15, 15)"
  using match_flat [OF ok, of 0 0] match_eq_fold [OF ok, of 0 0] by simp

lemma upto_2_3: "[2..3] = [2, 3::int]"
  by (simp add: upto.simps)

lemma full_search_flat:
  "full_search (zero_field 64 64) (flat_frame v) (flat_frame v) 64 64 x0 y0 = Some flat_field"
proof -
  let ?F = "flat_frame v"
  have ok: "match_reads_ok posx posy ?F ?F 64" if "posx \<in> {16, 24}" "posy \<in> {16, 24}" for posx posy
    using that by (intro match_reads_ok_window) (auto simp: flat_frame_def)
  have st: "store_vector ?F ?F 64 8 (idy, idx) (mv, x, y) = (mv[nat (idy * 8 + idx) := last_vector], 15, 15)"
    if "idx \<in> {2, 3}" "idy \<in> {2, 3}" for idx idy mv x y
  proof -
    have "match_reads_ok (idx * 8) (idy * 8) ?F ?F 64"
      using that by (intro ok) auto
    then have "search_last_min (cost_at ?F ?F 64 (idx * 8) (idy * 8)) 0 0 = (0, 15, 15)"
      unfolding flat_frame_def by (rule search_flat)
    then show ?thesis
      by (simp add: store_vector_def last_vector_def)
  qed
  have n: "c_div 64 8 = 8"
    by (simp add: c_div_def)
  have "estimateMotion ?F ?F 64 64 x0 y0
          = Some (fst (fold (store_vector ?F ?F 64 8) (List.product [2..3] [2..3]) (zero_field 64 64, x0, y0)))"
    using estimateMotion_eq_fold [OF flat_frame_frame flat_frame_frame, of v v x0 y0] by (simp add: n)
  also have "fold (store_vector ?F ?F 64 8) (List.product [2..3] [2..3]) (zero_field 64 64, x0, y0)
               = (flat_field, 15, 15)"
    by (simp add: upto_2_3 st flat_field_def zero_field_def MSTEP_def n)
  finally show ?thesis
    by (simp add: estimateMotion_def)
qed

lemma pipeline_flat:
  "motion_pipeline (flat_frame v) (flat_frame v) 64 64 x0 y0 = Some flat_field"
proof -
  have "median3x3 (flat_frame v) 64 64 = Some (flat_frame v)"
    using median3x3_eq [of 64 64 "flat_frame v"] medianFilter_flat [of 64 64 4096 v]
    by (simp add: flat_frame_def)
  then show ?thesis
    by (simp add: motion_pipeline_def full_search_flat)
qed

text \<open>
  C7, as stated, fails: for two identical 64 x 64 frames of constant value 7 the pipeline
  returns a field whose interior entry at the cell \<open>(2, 2)\<close> is \<open>(15, 15)\<close>, not \<open>(0, 0)\<close>.
\<close>

theorem pipeline_flat_counterexample:
  "motion_pipeline (flat_frame 7) (flat_frame 7) 64 64 0 0 = Some flat_field \<and>
   flat_field ! 18 = \<lparr>mv_x = 15, mv_y = 15\<rparr> \<and> flat_field ! 18 \<noteq> \<lparr>mv_x = 0, mv_y = 0\<rparr>"
  by (simp add: pipeline_flat flat_field_def last_vector_def)

text \<open>
  C7, amended. For two identical 64 x 64 frames of any constant value the pipeline (the
  median filter on both frames, then the estimation) returns the field in which the four
  interior (computed) entries, at the cells with \<open>idx\<close> and \<open>idy\<close> in \<open>{2, 3}\<close>, are
  \<open>(15, 15)\<close>, the last visited of the 1024 candidates that all cost 0, and the other 60
  entries are the zero vector; the squared magnitude \<open>x * x + y * y\<close> that
  \<open>compute_statistics\<close> forms of an entry is 450 at the four interior entries and 0 at
  the others.
\<close>

theorem pipeline_flat_field:
  "motion_pipeline (flat_frame v) (flat_frame v) 64 64 x0 y0 = Some flat_field \<and>
   flat_field = (replicate 64 \<lparr>mv_x = 0, mv_y = 0\<rparr>)
      [18 := \<lparr>mv_x = 15, mv_y = 15\<rparr>, 19 := \<lparr>mv_x = 15, mv_y = 15\<rparr>,
       26 := \<lparr>mv_x = 15, mv_y = 15\<rparr>, 27 := \<lparr>mv_x = 15, mv_y = 15\<rparr>] \<and>
   map sq_length flat_field = (replicate 64 0)[18 := 450, 19 := 450, 26 := 450, 27 := 450]"
  by (simp add: pipeline_flat flat_field_def last_vector_def zero_vector_def sq_length_def
      map_update)

end
